theory Spec2Isabelle
  imports Main "HOL-Library.Word"
begin

unbundle bit_operations_syntax

section \<open>Constants and macros that vm.c takes from headers\<close>

text \<open>
  Modelled from the spec: param.h and riscv.h are not part of the sources at hand, so the
  tunables are the ones of the specification (\<open>PAGE_SIZE = 4096\<close>, \<open>MAX_PSYC_PAGES = 16\<close>,
  \<open>MAX_TOTAL_PAGES = 32\<close>) and the PTE macros are those of the Sv39 layout the
  specification fixes: the flags are the low ten bits of a PTE, the physical page number
  sits above them, \<open>PTE_V\<close>, \<open>PTE_R\<close>, \<open>PTE_W\<close>, \<open>PTE_X\<close>, \<open>PTE_U\<close> and \<open>PTE_A\<close> are the
  architectural bits 0, 1, 2, 3, 4 and 6, and \<open>PTE_PG\<close> is the software-reserved bit 9.
\<close>

abbreviation PGSIZE :: nat where "PGSIZE \<equiv> 4096"
abbreviation MAX_PSYC_PAGES :: int where "MAX_PSYC_PAGES \<equiv> 16"
abbreviation MAX_TOTAL_PAGES :: int where "MAX_TOTAL_PAGES \<equiv> 32"
abbreviation MAXVA :: nat where "MAXVA \<equiv> 274877906944"

type_synonym pte_t = "64 word"

definition PTE_V :: pte_t where "PTE_V = 1"
definition PTE_R :: pte_t where "PTE_R = 2"
definition PTE_W :: pte_t where "PTE_W = 4"
definition PTE_X :: pte_t where "PTE_X = 8"
definition PTE_U :: pte_t where "PTE_U = 16"
definition PTE_A :: pte_t where "PTE_A = 64"
definition PTE_PG :: pte_t where "PTE_PG = 512"

definition PA2PTE :: "64 word \<Rightarrow> pte_t" where
  "PA2PTE pa = push_bit 10 (drop_bit 12 pa)"

definition PTE2PA :: "pte_t \<Rightarrow> 64 word" where
  "PTE2PA pte = push_bit 12 (drop_bit 10 pte)"

definition PTE_FLAGS :: "pte_t \<Rightarrow> pte_t" where
  "PTE_FLAGS pte = pte AND 1023"

definition PGROUNDUP :: "64 word \<Rightarrow> 64 word" where
  "PGROUNDUP sz = (sz + 4095) AND NOT 4095"

definition PGROUNDDOWN :: "64 word \<Rightarrow> 64 word" where
  "PGROUNDDOWN a = a AND NOT 4095"

section \<open>The process and its paging state\<close>

text \<open>
  A C function either returns or stops the kernel. \<open>PANIC\<close> carries the message of the
  \<open>panic\<close> call; the other faults are the places where C leaves the behaviour undefined
  and the code has no check of its own: a dereference of the null pointer \<open>walk\<close>
  returned, an index outside the queue's array or before the table \<open>data\<close>, an \<open>int\<close>
  product that does not fit.
\<close>

datatype fault = PANIC string | NULL_DEREF | OUT_OF_BOUNDS | INT_OVERFLOW

text \<open>The build-time selector \<open>SELECTION\<close>, a parameter of every function it changes.\<close>

datatype selection = NONE | NFUA | LAPA | SCFIFO

record pagemeta =
  inUse :: bool
  offset :: "32 word"
  agingCounter :: "32 word"

text \<open>
  The fields of \<open>struct proc\<close> that vm.c reads and writes, and next to them what the
  functions reach through \<open>myproc()\<close> and its collaborators. The arrays \<open>data\<close> and
  \<open>pages\<close> have \<open>MAX_TOTAL_PAGES\<close> entries; they are functions of the index here. The
  queue indexes \<open>pages\<close> with \<open>head\<close> and \<open>tail\<close>, and an access checks them against the
  bound. \<open>data\<close> is indexed with page numbers, which the code lets reach 32 and more:
  \<open>data p i\<close> with \<open>32 \<le> i\<close> is what lies behind the table at the place of entry \<open>i\<close>,
  read and written like an entry and kept apart from the other fields; no function
  that runs through the table looks there. The signed \<open>int\<close> fields are integers
  (every operation moves them by one); \<open>offset\<close> holds the bits of the C \<open>int\<close>, so the
  sentinel \<open>-1\<close> is the all-ones word and the conversions to and from \<open>uint\<close> keep it.

  The page table is the three-level tree seen through \<open>walk\<close>: \<open>pt_l1 i\<close> says that the
  root entry \<open>i\<close> points to a level-1 table, \<open>pt_l0 j\<close> that the level-1 entry for the
  2 MiB region \<open>j\<close> points to a leaf table, and \<open>pt_pte n\<close> is the leaf PTE of the virtual
  page \<open>n\<close>. A pointer to a leaf PTE is the number of its page.

  Modelled from the spec: the frame allocator (\<open>alloc_frame() \<rightarrow> frame_addr | null\<close>,
  \<open>free_frame\<close>) is a free list, and \<open>swap_write_fails\<close> says at which offsets
  \<open>writeToSwapFile\<close> returns a negative value. The contents of frames and of the swap
  file are not modelled.
\<close>

record proc =
  pid :: int
  sz :: "64 word"
  data :: "nat \<Rightarrow> pagemeta"
  pagesInMemory :: int
  pages :: "nat \<Rightarrow> int"
  head :: int
  tail :: int
  numOfPages :: int
  pt_l1 :: "nat \<Rightarrow> bool"
  pt_l0 :: "nat \<Rightarrow> bool"
  pt_pte :: "nat \<Rightarrow> pte_t"
  freelist :: "64 word list"
  swap_write_fails :: "32 word \<Rightarrow> bool"

section \<open>The resident queue\<close>

definition in_q :: "int \<Rightarrow> proc \<Rightarrow> fault + proc" where
  "in_q page p =
     (let t = (if tail p = MAX_TOTAL_PAGES - 1 then - 1 else tail p) + 1
      in if 0 \<le> t \<and> t < MAX_TOTAL_PAGES
         then Inr (p\<lparr>tail := t, pages := (pages p)(nat t := page),
                     numOfPages := numOfPages p + 1\<rparr>)
         else Inl OUT_OF_BOUNDS)"

definition out :: "proc \<Rightarrow> proc" where
  "out p =
     p\<lparr>head := (if head p = MAX_TOTAL_PAGES - 1 then 0 else head p + 1),
       numOfPages := numOfPages p - 1\<rparr>"

definition pages_at :: "proc \<Rightarrow> int \<Rightarrow> fault + int" where
  "pages_at p i =
     (if 0 \<le> i \<and> i < MAX_TOTAL_PAGES then Inr (pages p (nat i)) else Inl OUT_OF_BOUNDS)"

text \<open>
  The loop of \<open>removePage\<close>: its bound \<open>p->numOfPages\<close> is read again at every
  iteration, after \<open>out\<close> and \<open>in\<close> have changed it.
\<close>

function removePage_loop :: "int \<Rightarrow> int \<Rightarrow> proc \<Rightarrow> fault + proc" where
  "removePage_loop pageNumber i p =
     (if i < numOfPages p
      then (case pages_at p (head p) of
              Inl e \<Rightarrow> Inl e
            | Inr page \<Rightarrow>
                (case (if page \<noteq> pageNumber then in_q page (out p) else Inr (out p)) of
                   Inl e \<Rightarrow> Inl e
                 | Inr p' \<Rightarrow> removePage_loop pageNumber (i + 1) p'))
      else Inr p)"
  by pat_completeness auto
termination
  by (relation "measure (\<lambda>(pageNumber, i, p). nat (numOfPages p - i))")
    (auto simp: in_q_def out_def Let_def split: if_splits)

declare removePage_loop.simps [simp del]

definition removePage :: "int \<Rightarrow> proc \<Rightarrow> fault + proc" where
  "removePage pageNumber p = removePage_loop pageNumber 0 p"

text \<open>The queue from head to tail, as the list of the \<open>numOfPages\<close> entries after \<open>head\<close>.\<close>

definition queue :: "proc \<Rightarrow> int list" where
  "queue p =
     map (\<lambda>k. pages p (nat ((head p + int k) mod MAX_TOTAL_PAGES))) [0..<nat (numOfPages p)]"

text \<open>
  The cursors of a queue that \<open>in\<close> and \<open>out\<close> have kept: both inside the array (\<open>tail\<close> is
  \<open>-1\<close> before the first \<open>in\<close>), and \<open>tail\<close> at the last of the \<open>numOfPages\<close> entries that
  start at \<open>head\<close>.
\<close>

definition wfq :: "proc \<Rightarrow> bool" where
  "wfq p \<longleftrightarrow>
     0 \<le> head p \<and> head p < MAX_TOTAL_PAGES \<and> - 1 \<le> tail p \<and> tail p < MAX_TOTAL_PAGES \<and>
     0 \<le> numOfPages p \<and> numOfPages p \<le> MAX_TOTAL_PAGES \<and>
     (tail p + 1) mod MAX_TOTAL_PAGES = (head p + numOfPages p) mod MAX_TOTAL_PAGES"

section \<open>Frames and the page table\<close>

definition kalloc :: "proc \<Rightarrow> 64 word \<times> proc" where
  "kalloc p = (case freelist p of [] \<Rightarrow> (0, p) | f # fs \<Rightarrow> (f, p\<lparr>freelist := fs\<rparr>))"

definition kfree :: "64 word \<Rightarrow> proc \<Rightarrow> proc" where
  "kfree pa p = p\<lparr>freelist := pa # freelist p\<rparr>"

text \<open>
  One round of the loop of \<open>walk\<close>. At level 2 the entry \<open>PX(2, va)\<close> of the root is
  followed; at level 1 the entry of the level-1 table. An entry that is not valid ends
  the walk with a null pointer unless \<open>alloc\<close> is set and \<open>kalloc\<close> gives a page, which
  \<open>memset\<close> clears: a new level-1 table has no leaf tables below it, a new leaf table
  holds 512 zero PTEs.
\<close>

definition walk_level2 :: "proc \<Rightarrow> nat \<Rightarrow> bool \<Rightarrow> bool \<times> proc" where
  "walk_level2 p i alloc =
     (if pt_l1 p i then (True, p)
      else if \<not> alloc then (False, p)
      else (case kalloc p of (m, p') \<Rightarrow>
              if m = 0 then (False, p')
              else (True, p'\<lparr>pt_l1 := (pt_l1 p')(i := True),
                              pt_l0 := (\<lambda>j. if j div 512 = i then False else pt_l0 p' j)\<rparr>)))"

definition walk_level1 :: "proc \<Rightarrow> nat \<Rightarrow> bool \<Rightarrow> bool \<times> proc" where
  "walk_level1 p j alloc =
     (if pt_l0 p j then (True, p)
      else if \<not> alloc then (False, p)
      else (case kalloc p of (m, p') \<Rightarrow>
              if m = 0 then (False, p')
              else (True, p'\<lparr>pt_l0 := (pt_l0 p')(j := True),
                              pt_pte := (\<lambda>n. if n div 512 = j then 0 else pt_pte p' n)\<rparr>)))"

text \<open>
  \<open>walk\<close> on the process's own page table: the number of the page whose leaf PTE it
  points to, or \<open>None\<close> for the null pointer.
\<close>

definition walk :: "proc \<Rightarrow> 64 word \<Rightarrow> bool \<Rightarrow> fault + (nat option \<times> proc)" where
  "walk p va alloc =
     (if MAXVA \<le> unat va then Inl (PANIC ''walk'')
      else (case walk_level2 p (unat va div 2 ^ 30) alloc of
              (False, p2) \<Rightarrow> Inr (None, p2)
            | (True, p2) \<Rightarrow>
                (case walk_level1 p2 (unat va div 2 ^ 21) alloc of
                   (False, p1) \<Rightarrow> Inr (None, p1)
                 | (True, p1) \<Rightarrow> Inr (Some (unat va div PGSIZE), p1))))"

text \<open>
  The loop of \<open>mappages\<close>, from \<open>a = PGROUNDDOWN(va)\<close> to \<open>last\<close> (here \<open>lasta\<close>). It is left by the
  \<open>break\<close> at \<open>a == last\<close>, by the return of \<open>-1\<close> or by a panic; \<open>walk\<close> panics before
  \<open>a\<close> can wrap around.
\<close>

function mappages_loop ::
  "64 word \<Rightarrow> 64 word \<Rightarrow> 64 word \<Rightarrow> pte_t \<Rightarrow> proc \<Rightarrow> fault + (int \<times> proc)" where
  "mappages_loop a lasta pa perm p =
     (case walk p a True of
        Inl e \<Rightarrow> Inl e
      | Inr (None, p1) \<Rightarrow> Inr (- 1, p1)
      | Inr (Some n, p1) \<Rightarrow>
          if pt_pte p1 n AND PTE_V \<noteq> 0 then Inl (PANIC ''remap'')
          else (let p2 = p1\<lparr>pt_pte := (pt_pte p1)(n := PA2PTE pa OR perm OR PTE_V)\<rparr>
                in if a = lasta then Inr (0, p2)
                   else mappages_loop (a + 4096) lasta (pa + 4096) perm p2))"
  by pat_completeness auto
termination
proof (relation "measure (\<lambda>(a, lasta, pa, perm, p). MAXVA + PGSIZE - unat a)")
  show "wf (measure (\<lambda>(a, lasta, pa, perm, p). MAXVA + PGSIZE - unat a))"
    by simp
next
  fix a lasta :: "64 word" and pa perm :: "64 word" and p :: proc
    and x y n p1 p2
  assume w: "walk p a True = Inr x"
  have "unat a < MAXVA"
    using w by (auto simp: walk_def split: if_splits)
  moreover from this have "unat (a + 4096) = unat a + 4096"
    by (simp add: unat_word_ariths)
  ultimately show "((a + 4096, lasta, pa + 4096, perm, p2), (a, lasta, pa, perm, p))
      \<in> measure (\<lambda>(a, lasta, pa, perm, p). MAXVA + PGSIZE - unat a)"
    by simp
qed

declare mappages_loop.simps [simp del]

definition mappages ::
  "64 word \<Rightarrow> 64 word \<Rightarrow> 64 word \<Rightarrow> pte_t \<Rightarrow> proc \<Rightarrow> fault + (int \<times> proc)" where
  "mappages va sizea pa perm p =
     mappages_loop (PGROUNDDOWN va) (PGROUNDDOWN (va + sizea - 1)) pa perm p"

text \<open>
  \<open>index*PGSIZE\<close> is a product of two \<open>int\<close>s, converted to \<open>uint64\<close> for \<open>walk\<close>: a
  negative index becomes an address at the top of the 64-bit range.
\<close>

definition page_va :: "int \<Rightarrow> fault + 64 word" where
  "page_va index =
     (if - (2 ^ 31) \<le> index * 4096 \<and> index * 4096 < 2 ^ 31
      then Inr (word_of_int (index * 4096)) else Inl INT_OVERFLOW)"

text \<open>
  The leaf PTE that \<open>walk(p->pagetable, page*PGSIZE, 0)\<close> finds for a page of the queue,
  if it finds one.
\<close>

definition pte_of :: "proc \<Rightarrow> int \<Rightarrow> nat option" where
  "pte_of p x =
     (case page_va x of
        Inl e \<Rightarrow> None
      | Inr va \<Rightarrow> (case walk p va False of Inr (Some n, _) \<Rightarrow> Some n | _ \<Rightarrow> None))"

section \<open>Swap-file offsets\<close>

text \<open>
  \<open>getOffset\<close>: the outer loop runs over \<open>i = 0, PGSIZE, ...\<close> below \<open>p->sz\<close>, the inner
  one (\<open>offset_inUse\<close>, the value of its flag \<open>inUse\<close>) looks for an entry of \<open>data\<close>
  whose offset is \<open>i\<close>. \<open>found\<close> is never set, so the value after the loop is 0. The
  counter \<open>i\<close> is an \<open>int\<close>; it is a natural number here, and \<open>getOffset_loop_bound\<close> below
  shows that it never passes \<open>32 * PGSIZE\<close>.
\<close>

definition offset_inUse :: "proc \<Rightarrow> nat \<Rightarrow> bool" where
  "offset_inUse p i = list_ex (\<lambda>j. offset (data p j) = word_of_nat i) [0..<nat MAX_TOTAL_PAGES]"

function getOffset_loop :: "nat \<Rightarrow> proc \<Rightarrow> 32 word" where
  "getOffset_loop i p =
     (if i < unat (sz p)
      then (if offset_inUse p i then getOffset_loop (i + PGSIZE) p else word_of_nat i)
      else 0)"
  by pat_completeness auto
termination
  by (relation "measure (\<lambda>(i, p). unat (sz p) - i)") auto

declare getOffset_loop.simps [simp del]

definition getOffset :: "proc \<Rightarrow> 32 word" where
  "getOffset p = getOffset_loop 0 p"

section \<open>Replacement policies\<close>

text \<open>\<open>nfua\<close>: the state of the loop is the pair of \<open>min\<close> and \<open>index\<close>.\<close>

definition nfua_step :: "proc \<Rightarrow> nat \<Rightarrow> 32 word \<times> int \<Rightarrow> 32 word \<times> int" where
  "nfua_step p i st =
     (if inUse (data p i) \<and> agingCounter (data p i) < fst st
      then (agingCounter (data p i), int i) else st)"

definition nfua :: "proc \<Rightarrow> int" where
  "nfua p = snd (fold (nfua_step p) [3..<nat MAX_TOTAL_PAGES] (2 ^ 31, - 1))"

function countOnes_loop :: "32 word \<Rightarrow> 32 word \<Rightarrow> 32 word" where
  "countOnes_loop age count =
     (if age \<noteq> 0 then countOnes_loop (drop_bit 1 age) (count + (age AND 1)) else count)"
  by pat_completeness auto
termination
proof (relation "measure (\<lambda>(age, count). unat age)")
  show "wf (measure (\<lambda>(age :: 32 word, count :: 32 word). unat age))"
    by simp
next
  fix age count :: "32 word"
  assume "age \<noteq> 0"
  then have "0 < unat age"
    by (simp add: unat_gt_0)
  then have "unat age div 2 < unat age"
    by simp
  then show "((drop_bit 1 age, count + (age AND 1)), (age, count))
      \<in> measure (\<lambda>(age, count). unat age)"
    by (simp add: drop_bit_eq_div unat_div)
qed

declare countOnes_loop.simps [simp del]

definition countOnes :: "32 word \<Rightarrow> int" where
  "countOnes age = sint (countOnes_loop age 0)"

text \<open>
  \<open>lapa\<close>: the state of the loop is \<open>minOnes\<close>, \<open>minAge\<close> and \<open>pageIndex\<close>. \<open>minAge\<close> is an
  \<open>int\<close> that holds the bits of a \<open>uint\<close> and is compared with one, so it is converted
  back for the comparison: it is a word here and the comparison is unsigned.
\<close>

definition lapa_step :: "proc \<Rightarrow> nat \<Rightarrow> int \<times> 32 word \<times> int \<Rightarrow> int \<times> 32 word \<times> int" where
  "lapa_step p i st =
     (case st of (minOnes, minAge, pageIndex) \<Rightarrow>
        if inUse (data p i)
        then (let age = agingCounter (data p i); numOfOnes = countOnes age
              in if minOnes = - 1 \<or> numOfOnes < minOnes \<or> (numOfOnes = minOnes \<and> age < minAge)
                 then (numOfOnes, age, int i) else st)
        else st)"

definition lapa :: "proc \<Rightarrow> int" where
  "lapa p = snd (snd (fold (lapa_step p) [3..<nat MAX_TOTAL_PAGES] (- 1, - 1, - 1)))"

text \<open>
  \<open>scfifo\<close>: the loop either returns the page at the head from inside, or gives the
  page a second chance and goes on; after the loop the page at the head is returned.
\<close>

function scfifo_loop :: "int \<Rightarrow> proc \<Rightarrow> fault + (int \<times> proc)" where
  "scfifo_loop i p =
     (if i < numOfPages p
      then (case pages_at p (head p) of
              Inl e \<Rightarrow> Inl e
            | Inr page \<Rightarrow>
                (case page_va page of
                   Inl e \<Rightarrow> Inl e
                 | Inr va \<Rightarrow>
                     (case walk p va False of
                        Inl e \<Rightarrow> Inl e
                      | Inr (None, _) \<Rightarrow> Inl NULL_DEREF
                      | Inr (Some n, _) \<Rightarrow>
                          if PTE_FLAGS (pt_pte p n) AND PTE_A \<noteq> 0
                          then (case in_q page
                                       (out (p\<lparr>pt_pte := (pt_pte p)(n := pt_pte p n AND NOT PTE_A)\<rparr>)) of
                                  Inl e \<Rightarrow> Inl e
                                | Inr p' \<Rightarrow> scfifo_loop (i + 1) p')
                          else Inr (page, out p))))
      else (case pages_at p (head p) of
              Inl e \<Rightarrow> Inl e
            | Inr page \<Rightarrow> Inr (page, out p)))"
  by pat_completeness auto
termination
  by (relation "measure (\<lambda>(i, p). nat (numOfPages p - i))")
    (auto simp: in_q_def out_def Let_def split: if_splits)

declare scfifo_loop.simps [simp del]

definition scfifo :: "proc \<Rightarrow> fault + (int \<times> proc)" where
  "scfifo p = scfifo_loop 0 p"

definition getIndexToRemove :: "selection \<Rightarrow> proc \<Rightarrow> fault + (int \<times> proc)" where
  "getIndexToRemove sel p =
     (case sel of
        NFUA \<Rightarrow> Inr (nfua p, p)
      | LAPA \<Rightarrow> Inr (lapa p, p)
      | SCFIFO \<Rightarrow> scfifo p
      | NONE \<Rightarrow> Inr (0, p))"

definition initAging :: "selection \<Rightarrow> int \<Rightarrow> proc \<Rightarrow> fault + (32 word \<times> proc)" where
  "initAging sel page p =
     (case sel of
        NFUA \<Rightarrow> Inr (0, p)
      | LAPA \<Rightarrow> Inr (- 1, p)
      | SCFIFO \<Rightarrow> (case in_q page p of Inl e \<Rightarrow> Inl e | Inr p' \<Rightarrow> Inr (0, p'))
      | NONE \<Rightarrow> Inr (0, p))"

text \<open>
  What victim selection may change: the queue, and the accessed bits of PTEs.
\<close>

definition victim_frame :: "proc \<Rightarrow> proc \<Rightarrow> bool" where
  "victim_frame p p' \<longleftrightarrow>
     pid p' = pid p \<and> sz p' = sz p \<and> data p' = data p \<and>
     pagesInMemory p' = pagesInMemory p \<and> pt_l1 p' = pt_l1 p \<and> pt_l0 p' = pt_l0 p \<and>
     freelist p' = freelist p \<and> swap_write_fails p' = swap_write_fails p \<and>
     (\<forall>n. pt_pte p' n AND NOT PTE_A = pt_pte p n AND NOT PTE_A)"

section \<open>Swap-out and swap-in\<close>

text \<open>
  \<open>page_to_file\<close>: \<open>walk\<close> panics on the address of a negative index, so \<open>index\<close> is not
  negative where \<open>data[index]\<close> is written.
\<close>

definition page_to_file :: "selection \<Rightarrow> 32 word \<Rightarrow> proc \<Rightarrow> fault + proc" where
  "page_to_file sel pageOffset p =
     (case getIndexToRemove sel p of
        Inl e \<Rightarrow> Inl e
      | Inr (index, p1) \<Rightarrow>
          (case page_va index of
             Inl e \<Rightarrow> Inl e
           | Inr va \<Rightarrow>
               (case walk p1 va False of
                  Inl e \<Rightarrow> Inl e
                | Inr (None, _) \<Rightarrow> Inl NULL_DEREF
                | Inr (Some n, _) \<Rightarrow>
                    if swap_write_fails p1 pageOffset then Inl (PANIC ''write to file failed'')
                    else (let p2 = kfree (PTE2PA (pt_pte p1 n)) p1;
                              p3 = p2\<lparr>pt_pte := (pt_pte p2)(n := (pt_pte p2 n AND NOT PTE_V) OR PTE_PG)\<rparr>
                          in Inr (p3\<lparr>data := (data p3)(nat index :=
                                          (data p3 (nat index))\<lparr>inUse := False, offset := pageOffset\<rparr>),
                                        pagesInMemory := pagesInMemory p3 - 1\<rparr>)))))"

text \<open>
  \<open>swap_in\<close>: \<open>pte\<close> is the pointer the fault handler passes, the number of the page
  whose leaf PTE it is. \<open>missingPageIndex\<close> is an \<open>int\<close> taken from a \<open>uint64\<close>; it is
  negative only for an address of \<open>2^43\<close> or more, where \<open>data[missingPageIndex]\<close> lies
  before the table.
\<close>

definition missingPageIndex :: "64 word \<Rightarrow> int" where
  "missingPageIndex va = sint (ucast (PGROUNDDOWN va div 4096) :: 32 word)"

definition swap_in :: "selection \<Rightarrow> 64 word \<Rightarrow> nat \<Rightarrow> proc \<Rightarrow> fault + proc" where
  "swap_in sel va pte p =
     (let missingPageIndex = missingPageIndex va
      in if missingPageIndex < 0 then Inl OUT_OF_BOUNDS
         else if offset (data p (nat missingPageIndex)) = - 1
         then Inl (PANIC ''Fail in handling page fault'')
         else (let pageOffset = offset (data p (nat missingPageIndex))
               in case kalloc p of (buff, p1) \<Rightarrow>
                    if buff = 0 then Inl (PANIC ''Fail in kalloc while handling page fault'')
                    else (case (if pagesInMemory p1 < MAX_PSYC_PAGES
                                then Inr (p1\<lparr>pt_pte := (pt_pte p1)(pte := PA2PTE buff OR PTE_V)\<rparr>)
                                else (case page_to_file sel pageOffset p1 of
                                        Inl e \<Rightarrow> Inl e
                                      | Inr p2 \<Rightarrow>
                                          Inr (p2\<lparr>pt_pte := (pt_pte p2)(pte :=
                                                 PA2PTE buff OR
                                                 ((PTE_FLAGS (pt_pte p2 pte) AND NOT PTE_PG) OR PTE_V))\<rparr>))) of
                            Inl e \<Rightarrow> Inl e
                          | Inr p3 \<Rightarrow>
                              (case initAging sel missingPageIndex p3 of
                                 Inl e \<Rightarrow> Inl e
                               | Inr (age, p4) \<Rightarrow>
                                   Inr (p4\<lparr>data := (data p4)(nat missingPageIndex :=
                                              \<lparr>inUse = True, offset = - 1, agingCounter = age\<rparr>),
                                            pagesInMemory := pagesInMemory p4 + 1\<rparr>)))))"

section \<open>Unmap and growth\<close>

text \<open>
  The functions below take a page table in C. Here it is the page table of the current
  process, which is what \<open>growproc\<close> passes; \<open>myproc()\<close> is the process \<open>p\<close>.

  \<open>uvmunmap_pte\<close> is the body of the loop of \<open>uvmunmap\<close> for a PTE that \<open>walk\<close> found:
  \<open>n\<close> is the page of the PTE and \<open>a\<close> the address of the round.
\<close>

definition uvmunmap_pte :: "selection \<Rightarrow> 64 word \<Rightarrow> nat \<Rightarrow> bool \<Rightarrow> proc \<Rightarrow> fault + proc" where
  "uvmunmap_pte sel a n do_free p =
     (case (if pt_pte p n AND PTE_V \<noteq> 0
            then (if PTE_FLAGS (pt_pte p n) = PTE_V then Inl (PANIC ''uvmunmap: not a leaf'')
                  else if do_free
                  then (let p1 = kfree (PTE2PA (pt_pte p n)) p
                        in if sel \<noteq> NONE \<and> unat a div PGSIZE < 32
                           then removePage (int (unat a div PGSIZE))
                                  (p1\<lparr>data := (data p1)(unat a div PGSIZE :=
                                          (data p1 (unat a div PGSIZE))\<lparr>inUse := False, offset := - 1\<rparr>),
                                      pagesInMemory :=
                                        (if pagesInMemory p1 = 0 then 0 else pagesInMemory p1 - 1)\<rparr>)
                           else Inr p1)
                  else Inr p)
            else (if sel \<noteq> NONE \<and> unat a div PGSIZE < 32
                  then Inr (p\<lparr>data := (data p)(unat a div PGSIZE :=
                                 (data p (unat a div PGSIZE))\<lparr>offset := - 1\<rparr>)\<rparr>)
                  else Inr p)) of
        Inl e \<Rightarrow> Inl e
      | Inr p2 \<Rightarrow> Inr (p2\<lparr>pt_pte := (pt_pte p2)(n := 0)\<rparr>))"

function uvmunmap_loop ::
  "selection \<Rightarrow> 64 word \<Rightarrow> 64 word \<Rightarrow> bool \<Rightarrow> proc \<Rightarrow> fault + proc" where
  "uvmunmap_loop sel a bound do_free p =
     (if a < bound
      then (case walk p a False of
              Inl e \<Rightarrow> Inl e
            | Inr (None, _) \<Rightarrow> uvmunmap_loop sel (a + 4096) bound do_free p
            | Inr (Some n, _) \<Rightarrow>
                (case uvmunmap_pte sel a n do_free p of
                   Inl e \<Rightarrow> Inl e
                 | Inr p' \<Rightarrow> uvmunmap_loop sel (a + 4096) bound do_free p'))
      else Inr p)"
  by pat_completeness auto
termination
proof (relation "measure (\<lambda>(sel, a, bound, do_free, p). MAXVA + PGSIZE - unat a)", goal_cases)
  case 1
  show ?case by simp
next
  case (2 sel a bound do_free p x)
  then have "unat a < MAXVA"
    by (auto simp: walk_def split: if_splits)
  moreover from this have "unat (a + 4096) = unat a + 4096"
    by (simp add: unat_word_ariths)
  ultimately show ?case by simp
next
  case (3 sel a bound do_free p x y n p')
  then have "unat a < MAXVA"
    by (auto simp: walk_def split: if_splits)
  moreover from this have "unat (a + 4096) = unat a + 4096"
    by (simp add: unat_word_ariths)
  ultimately show ?case by simp
qed

declare uvmunmap_loop.simps [simp del]

definition uvmunmap ::
  "selection \<Rightarrow> 64 word \<Rightarrow> 64 word \<Rightarrow> bool \<Rightarrow> proc \<Rightarrow> fault + proc" where
  "uvmunmap sel va npages do_free p =
     (if va mod 4096 \<noteq> 0 then Inl (PANIC ''uvmunmap: not aligned'')
      else uvmunmap_loop sel va (va + npages * 4096) do_free p)"

text \<open>\<open>npages\<close> is an \<open>int\<close> in \<open>uvmdealloc\<close> and a \<open>uint64\<close> in \<open>uvmunmap\<close>.\<close>

definition uvmdealloc ::
  "selection \<Rightarrow> 64 word \<Rightarrow> 64 word \<Rightarrow> proc \<Rightarrow> fault + (64 word \<times> proc)" where
  "uvmdealloc sel oldsz newsz p =
     (if oldsz \<le> newsz then Inr (oldsz, p)
      else if PGROUNDUP newsz < PGROUNDUP oldsz
      then (let npages = (ucast ((PGROUNDUP oldsz - PGROUNDUP newsz) div 4096) :: 32 word)
            in case uvmunmap sel (PGROUNDUP newsz) (scast npages) True p of
                 Inl e \<Rightarrow> Inl e
               | Inr p' \<Rightarrow> Inr (newsz, p'))
      else Inr (newsz, p))"

text \<open>
  The rounds of the loops of \<open>uvmalloc\<close> and \<open>NONE_uvmalloc\<close> give either the value the
  function returns from inside the loop (\<open>Some\<close>) or the state the loop goes on with.

  \<open>alloc_and_map\<close> is the text the source has three times: take a frame, clear it, map
  it at \<open>a\<close>, and on failure deallocate down to \<open>oldsz\<close> and return 0.

  The test of \<open>uvmalloc\<close> is \<open>numOfPages > MAX_TOTAL_PAGES\<close>: page 32 passes it, and the
  round writes \<open>data[32]\<close>, behind the table.
\<close>

definition alloc_and_map ::
  "selection \<Rightarrow> 64 word \<Rightarrow> 64 word \<Rightarrow> proc \<Rightarrow> fault + (64 word option \<times> proc)" where
  "alloc_and_map sel a oldsz p =
     (case kalloc p of (mem, p1) \<Rightarrow>
        if mem = 0
        then (case uvmdealloc sel a oldsz p1 of
                Inl e \<Rightarrow> Inl e
              | Inr (_, p2) \<Rightarrow> Inr (Some 0, p2))
        else (case mappages a 4096 mem (PTE_W OR PTE_X OR PTE_R OR PTE_U) p1 of
                Inl e \<Rightarrow> Inl e
              | Inr (r, p2) \<Rightarrow>
                  if r \<noteq> 0
                  then (case uvmdealloc sel a oldsz (kfree mem p2) of
                          Inl e \<Rightarrow> Inl e
                        | Inr (_, p3) \<Rightarrow> Inr (Some 0, p3))
                  else Inr (None, p2)))"

definition uvmalloc_body ::
  "selection \<Rightarrow> 64 word \<Rightarrow> 64 word \<Rightarrow> 64 word \<Rightarrow> proc \<Rightarrow> fault + (64 word option \<times> proc)" where
  "uvmalloc_body sel a oldsz newsz p =
     (if 1 < pid p
      then (let numOfPages = unat a div PGSIZE
            in if 32 < numOfPages then Inr (Some (- 1), p)
               else if MAX_PSYC_PAGES \<le> pagesInMemory p
               then (case page_to_file sel (getOffset p) p of
                       Inl e \<Rightarrow> Inl e
                     | Inr p1 \<Rightarrow>
                         (case kalloc p1 of (mem, p2) \<Rightarrow>
                            (case mappages a 4096 mem (PTE_W OR PTE_R OR PTE_X OR PTE_U) p2 of
                               Inl e \<Rightarrow> Inl e
                             | Inr (r, p3) \<Rightarrow>
                                 if r < 0
                                 then (case uvmdealloc sel newsz oldsz p3 of
                                         Inl e \<Rightarrow> Inl e
                                       | Inr (_, p4) \<Rightarrow> Inr (Some 0, p4))
                                 else (let p4 = p3\<lparr>data := (data p3)(numOfPages :=
                                                     (data p3 numOfPages)\<lparr>inUse := True, offset := - 1\<rparr>),
                                                   pagesInMemory := pagesInMemory p3 + 1\<rparr>
                                       in case initAging sel (int numOfPages) p4 of
                                            Inl e \<Rightarrow> Inl e
                                          | Inr (age, p5) \<Rightarrow>
                                              Inr (None, p5\<lparr>data := (data p5)(numOfPages :=
                                                     (data p5 numOfPages)\<lparr>agingCounter := age\<rparr>)\<rparr>)))))
               else (case alloc_and_map sel a oldsz p of
                       Inl e \<Rightarrow> Inl e
                     | Inr (Some r, p1) \<Rightarrow> Inr (Some r, p1)
                     | Inr (None, p1) \<Rightarrow>
                         (let p2 = p1\<lparr>data := (data p1)(numOfPages :=
                                        (data p1 numOfPages)\<lparr>inUse := True\<rparr>),
                                      pagesInMemory := pagesInMemory p1 + 1\<rparr>
                          in case initAging sel (int numOfPages) p2 of
                               Inl e \<Rightarrow> Inl e
                             | Inr (age, p3) \<Rightarrow>
                                 Inr (None, p3\<lparr>data := (data p3)(numOfPages :=
                                        (data p3 numOfPages)\<lparr>agingCounter := age\<rparr>)\<rparr>))))
      else alloc_and_map sel a oldsz p)"

text \<open>A round of the loop goes on only after \<open>mappages\<close> has walked to \<open>a\<close>.\<close>

lemma split_low_bits: "(a :: 64 word) = (a AND NOT 4095) + (a AND 4095)"
proof -
  have "(a AND NOT 4095) AND (a AND 4095) = 0"
    by (simp add: bit_eq_iff bit_simps)
  then have "(a AND NOT 4095) + (a AND 4095) = (a AND NOT 4095) OR (a AND 4095)"
    by (metis word_plus_and_or add_0)
  also have "\<dots> = a"
    by (auto simp add: bit_eq_iff bit_simps)
  finally show ?thesis by simp
qed

lemma unat_le_PGROUNDDOWN: "unat a \<le> unat (PGROUNDDOWN a) + 4095"
proof -
  have "unat a = unat ((a AND NOT 4095) + (a AND 4095))"
    using split_low_bits [of a] by simp
  also have "\<dots> \<le> unat (a AND NOT 4095) + unat (a AND 4095)"
    by (simp add: unat_word_ariths)
  finally have "unat a \<le> unat (a AND NOT 4095) + unat (a AND 4095)" .
  moreover have "unat (a AND 4095) \<le> 4095"
    using word_and_le1 [of a 4095] by (simp add: word_le_nat_alt)
  ultimately show ?thesis by (simp add: PGROUNDDOWN_def)
qed

lemma mappages_Inr_bound:
  "mappages a n mem perm p = Inr x \<Longrightarrow> unat (PGROUNDDOWN a) < MAXVA"
  unfolding mappages_def
  by (subst (asm) mappages_loop.simps) (auto simp: walk_def split: if_splits)

lemma alloc_and_map_continue:
  "alloc_and_map sel a oldsz p = Inr (None, p') \<Longrightarrow> unat (PGROUNDDOWN a) < MAXVA"
  by (auto simp: alloc_and_map_def split: prod.splits if_splits sum.splits
      dest: mappages_Inr_bound)

lemma uvmalloc_body_continue:
  "uvmalloc_body sel a oldsz newsz p = Inr (None, p') \<Longrightarrow> unat (PGROUNDDOWN a) < MAXVA"
  by (auto simp: uvmalloc_body_def Let_def split: prod.splits if_splits sum.splits option.splits
      dest: mappages_Inr_bound alloc_and_map_continue)

lemma next_page_measure:
  assumes "unat (PGROUNDDOWN a) < MAXVA"
  shows "MAXVA + 2 * PGSIZE - unat (a + 4096) < MAXVA + 2 * PGSIZE - unat a"
proof -
  have "unat a < MAXVA + PGSIZE"
    using assms unat_le_PGROUNDDOWN [of a] by simp
  moreover from this have "unat (a + 4096) = unat a + 4096"
    by (simp add: unat_word_ariths)
  ultimately show ?thesis by simp
qed

function uvmalloc_loop ::
  "selection \<Rightarrow> 64 word \<Rightarrow> 64 word \<Rightarrow> 64 word \<Rightarrow> proc \<Rightarrow> fault + (64 word \<times> proc)" where
  "uvmalloc_loop sel a oldsz newsz p =
     (if a < newsz
      then (case uvmalloc_body sel a oldsz newsz p of
              Inl e \<Rightarrow> Inl e
            | Inr (Some r, p') \<Rightarrow> Inr (r, p')
            | Inr (None, p') \<Rightarrow> uvmalloc_loop sel (a + 4096) oldsz newsz p')
      else Inr (newsz, p))"
  by pat_completeness auto
termination
  by (relation "measure (\<lambda>(sel, a, oldsz, newsz, p). MAXVA + 2 * PGSIZE - unat a)")
    (auto dest!: uvmalloc_body_continue next_page_measure)

declare uvmalloc_loop.simps [simp del]

function NONE_uvmalloc_loop ::
  "64 word \<Rightarrow> 64 word \<Rightarrow> 64 word \<Rightarrow> proc \<Rightarrow> fault + (64 word \<times> proc)" where
  "NONE_uvmalloc_loop a oldsz newsz p =
     (if a < newsz
      then (case alloc_and_map NONE a oldsz p of
              Inl e \<Rightarrow> Inl e
            | Inr (Some r, p') \<Rightarrow> Inr (r, p')
            | Inr (None, p') \<Rightarrow> NONE_uvmalloc_loop (a + 4096) oldsz newsz p')
      else Inr (newsz, p))"
  by pat_completeness auto
termination
  by (relation "measure (\<lambda>(a, oldsz, newsz, p). MAXVA + 2 * PGSIZE - unat a)")
    (auto dest!: alloc_and_map_continue next_page_measure)

declare NONE_uvmalloc_loop.simps [simp del]

definition NONE_uvmalloc :: "64 word \<Rightarrow> 64 word \<Rightarrow> proc \<Rightarrow> fault + (64 word \<times> proc)" where
  "NONE_uvmalloc oldsz newsz p =
     (if newsz < oldsz then Inr (oldsz, p)
      else NONE_uvmalloc_loop (PGROUNDUP oldsz) (PGROUNDUP oldsz) newsz p)"

definition uvmalloc ::
  "selection \<Rightarrow> 64 word \<Rightarrow> 64 word \<Rightarrow> proc \<Rightarrow> fault + (64 word \<times> proc)" where
  "uvmalloc sel oldsz newsz p =
     (if sel = NONE then NONE_uvmalloc oldsz newsz p
      else if newsz < oldsz then Inr (oldsz, p)
      else uvmalloc_loop sel (PGROUNDUP oldsz) (PGROUNDUP oldsz) newsz p)"

section \<open>The aging tick\<close>

definition updateAging_step :: "nat \<Rightarrow> proc \<Rightarrow> fault + proc" where
  "updateAging_step i p =
     (case walk p (word_of_nat (i * PGSIZE)) False of
        Inl e \<Rightarrow> Inl e
      | Inr (None, _) \<Rightarrow> Inl NULL_DEREF
      | Inr (Some n, _) \<Rightarrow>
          if pt_pte p n AND PTE_V \<noteq> 0
          then (let p1 = p\<lparr>data := (data p)(i :=
                              (data p i)\<lparr>agingCounter := drop_bit 1 (agingCounter (data p i))\<rparr>)\<rparr>
                in if pt_pte p1 n AND PTE_A \<noteq> 0
                   then Inr (p1\<lparr>data := (data p1)(i :=
                                  (data p1 i)\<lparr>agingCounter := agingCounter (data p1 i) OR 2 ^ 31\<rparr>),
                                pt_pte := (pt_pte p1)(n := pt_pte p1 n AND NOT PTE_A)\<rparr>)
                   else Inr p1)
          else Inr p)"

fun updateAging_loop :: "nat list \<Rightarrow> proc \<Rightarrow> fault + proc" where
  "updateAging_loop [] p = Inr p"
| "updateAging_loop (i # is) p =
     (case updateAging_step i p of Inl e \<Rightarrow> Inl e | Inr p' \<Rightarrow> updateAging_loop is p')"

definition updateAging :: "selection \<Rightarrow> proc \<Rightarrow> fault + proc" where
  "updateAging sel p =
     (if sel = NFUA \<or> sel = LAPA then updateAging_loop [0..<nat MAX_TOTAL_PAGES] p else Inr p)"

section \<open>Unmapping what is not mapped\<close>

text \<open>
  \<open>leaf_present p n\<close>: the page table has a leaf table for page \<open>n\<close>, so \<open>walk\<close> returns a
  pointer for it. \<open>reset_offsets sel lo hi p\<close> is \<open>p\<close> with the offset of every page from
  \<open>lo\<close> up to \<open>hi\<close> that is below 32 and has a leaf table set to \<open>-1\<close> (and \<open>p\<close> itself when
  the paging subsystem is compiled out).
\<close>

definition leaf_present :: "proc \<Rightarrow> nat \<Rightarrow> bool" where
  "leaf_present p n \<longleftrightarrow> pt_l1 p (n div 2 ^ 18) \<and> pt_l0 p (n div 2 ^ 9)"

definition reset_offsets :: "selection \<Rightarrow> nat \<Rightarrow> nat \<Rightarrow> proc \<Rightarrow> proc" where
  "reset_offsets sel lo hi p =
     p\<lparr>data := (\<lambda>i. if sel \<noteq> NONE \<and> i < 32 \<and> lo \<le> i \<and> i < hi \<and> leaf_present p i
                     then (data p i)\<lparr>offset := - 1\<rparr> else data p i)\<rparr>"

section \<open>Concrete process states\<close>

text \<open>
  A process as it is before its first page: nothing resident, every offset at the
  sentinel, the queue empty with \<open>head = 0\<close> and \<open>tail = -1\<close>, an empty page table.
\<close>

definition fresh_proc :: proc where
  "fresh_proc =
     \<lparr>pid = 2, sz = 0,
      data = (\<lambda>_. \<lparr>inUse = False, offset = - 1, agingCounter = 0\<rparr>),
      pagesInMemory = 0, pages = (\<lambda>_. 0), head = 0, tail = - 1, numOfPages = 0,
      pt_l1 = (\<lambda>_. False), pt_l0 = (\<lambda>_. False), pt_pte = (\<lambda>_. 0),
      freelist = [], swap_write_fails = (\<lambda>_. False)\<rparr>"

text \<open>The queue after \<open>in(10); in(11); in(12)\<close>.\<close>

definition queue3 :: proc where
  "queue3 =
     fresh_proc\<lparr>pages := (\<lambda>i. if i = 0 then 10 else if i = 1 then 11 else if i = 2 then 12 else 0),
       tail := 2, numOfPages := 3\<rparr>"

text \<open>
  Page 3 is resident and was accessed in the last tick: the aging tick has shifted its
  counter and set bit 31.
\<close>

definition touched3 :: proc where
  "touched3 =
     fresh_proc\<lparr>data := (data fresh_proc)(3 :=
                   \<lparr>inUse = True, offset = - 1, agingCounter = 0x80000000\<rparr>),
       pagesInMemory := 1\<rparr>"

text \<open>
  Three pages of address space with two of them paged out to the offsets 0 and 4096, and
  one page of address space whose only page is paged out to offset 0.
\<close>

definition swapped2 :: proc where
  "swapped2 =
     fresh_proc\<lparr>sz := 0x3000,
       data := (data fresh_proc)(5 := \<lparr>inUse = False, offset = 0, agingCounter = 0\<rparr>,
                                 7 := \<lparr>inUse = False, offset = 0x1000, agingCounter = 0\<rparr>)\<rparr>"

definition full1 :: proc where
  "full1 =
     fresh_proc\<lparr>sz := 0x1000,
       data := (data fresh_proc)(0 := \<lparr>inUse = False, offset = 0, agingCounter = 0\<rparr>)\<rparr>"

text \<open>
  A process that grows from nothing: \<open>boot_proc\<close> has twenty free frames to take.
  \<open>touch\<close> is what the hardware does when the process accesses page \<open>n\<close>: it sets the
  accessed bit of the PTE. \<open>warm4\<close> is the state after the process has grown to four
  pages, accessed each of them, and the aging tick has run once.
\<close>

definition boot_proc :: proc where
  "boot_proc =
     fresh_proc\<lparr>freelist := map (\<lambda>k. 0x80100000 + 0x1000 * word_of_nat k) [0..<20]\<rparr>"

definition touch :: "nat \<Rightarrow> proc \<Rightarrow> proc" where
  "touch n p = p\<lparr>pt_pte := (pt_pte p)(n := pt_pte p n OR PTE_A)\<rparr>"

definition warm4 :: "fault + proc" where
  "warm4 =
     (case uvmalloc NFUA 0 0x4000 boot_proc of
        Inl e \<Rightarrow> Inl e
      | Inr (_, p) \<Rightarrow> updateAging NFUA (fold touch [0..<4] p))"

text \<open>
  Two resident pages, 5 and 6, queued in this order, both mapped with the flags
  \<open>V R W X U A\<close>: both were accessed since they were queued.
\<close>

definition second_chance2 :: proc where
  "second_chance2 =
     fresh_proc\<lparr>pages := (\<lambda>i. if i = 0 then 5 else if i = 1 then 6 else 0),
       tail := 1, numOfPages := 2, pagesInMemory := 2,
       data := (\<lambda>i. \<lparr>inUse = (i = 5 \<or> i = 6), offset = - 1, agingCounter = 0\<rparr>),
       pt_l1 := (\<lambda>i. i = 0), pt_l0 := (\<lambda>j. j = 0),
       pt_pte := (\<lambda>n. if n = 5 then 0x2004145F else if n = 6 then 0x2004185F else 0)\<rparr>"

text \<open>
  \<open>swapped7\<close>: two pages resident, page 7 paged out to offset 4096, one free frame.
  \<open>full16\<close>: the sixteen pages 3 to 18 resident, page 20 paged out to offset 8192, one
  free frame.
\<close>

definition swapped7 :: proc where
  "swapped7 =
     fresh_proc\<lparr>sz := 0x8000, pagesInMemory := 2,
       data := (\<lambda>i. if i = 3 \<or> i = 4 then \<lparr>inUse = True, offset = - 1, agingCounter = 0\<rparr>
                    else if i = 7 then \<lparr>inUse = False, offset = 0x1000, agingCounter = 5\<rparr>
                    else \<lparr>inUse = False, offset = - 1, agingCounter = 0\<rparr>),
       pt_l1 := (\<lambda>i. i = 0), pt_l0 := (\<lambda>j. j = 0),
       pt_pte := (\<lambda>n. if n = 3 then 0x2004141F else if n = 4 then 0x2004181F
                       else if n = 7 then 0x2004221E else 0),
       freelist := [0x80200000]\<rparr>"

definition full16 :: proc where
  "full16 =
     fresh_proc\<lparr>sz := 0x15000, pagesInMemory := 16,
       data := (\<lambda>i. if 3 \<le> i \<and> i < 19 then \<lparr>inUse = True, offset = - 1, agingCounter = 0\<rparr>
                    else if i = 20 then \<lparr>inUse = False, offset = 0x2000, agingCounter = 0\<rparr>
                    else \<lparr>inUse = False, offset = - 1, agingCounter = 0\<rparr>),
       pt_l1 := (\<lambda>i. i = 0), pt_l0 := (\<lambda>j. j = 0),
       pt_pte := (\<lambda>n. if 3 \<le> n \<and> n < 19 then push_bit 10 (0x80100 + word_of_nat n) OR 0x1F
                       else if n = 20 then 0x2004621E else 0),
       freelist := [0x80200000]\<rparr>"

text \<open>
  The child of \<open>swapped7\<close> after \<open>fork\<close>: \<open>uvmcopy\<close> copies only the PTEs that are valid, so
  page 7 has a zero PTE in the child, while \<open>data\<close> is the copy of the parent's and still
  gives page 7 the offset 4096.
\<close>

definition forked7 :: proc where
  "forked7 = swapped7\<lparr>pid := 3, pt_pte := (pt_pte swapped7)(7 := 0)\<rparr>"

section \<open>The resident-page counts\<close>

text \<open>
  \<open>count_inUse\<close> is the number of entries of \<open>data\<close> with \<open>inUse\<close> set, \<open>resident\<close> the set
  of their indices. \<open>mapped p n\<close>: page \<open>n\<close> has a leaf PTE with the valid bit set.

  \<open>tracked\<close> is the state of the bookkeeping of a process with \<open>pid > 1\<close>: the in-use
  entries are counted by \<open>pagesInMemory\<close>, at most \<open>MAX_PSYC_PAGES\<close> of them, an entry is
  in use exactly when its page is mapped, and the queue holds the in-use pages, each
  once, under SCFIFO and nothing under the other policies, where \<open>initAging\<close> does not
  call \<open>in\<close>. The paging code leaves the processes with \<open>pid \<le> 1\<close> alone, and their
  bookkeeping stays as \<open>allocproc\<close> left it (\<open>untracked\<close>).
\<close>

definition count_inUse :: "proc \<Rightarrow> int" where
  "count_inUse p = int (length (filter (\<lambda>i. inUse (data p i)) [0..<nat MAX_TOTAL_PAGES]))"

definition resident :: "proc \<Rightarrow> nat set" where
  "resident p = {i. i < 32 \<and> inUse (data p i)}"

definition mapped :: "proc \<Rightarrow> nat \<Rightarrow> bool" where
  "mapped p n \<longleftrightarrow> leaf_present p n \<and> pt_pte p n AND PTE_V \<noteq> 0"

definition tracked :: "selection \<Rightarrow> proc \<Rightarrow> bool" where
  "tracked sel p \<longleftrightarrow>
     count_inUse p = pagesInMemory p \<and> pagesInMemory p \<le> MAX_PSYC_PAGES \<and>
     (\<forall>i<32. inUse (data p i) = mapped p i) \<and>
     (if sel = SCFIFO
      then wfq p \<and> distinct (queue p) \<and> set (queue p) = int ` resident p
      else numOfPages p = 0)"

definition untracked :: "proc \<Rightarrow> bool" where
  "untracked p \<longleftrightarrow>
     (\<forall>i<32. \<not> inUse (data p i) \<and> offset (data p i) = - 1) \<and>
     pagesInMemory p = 0 \<and> numOfPages p = 0"

definition paging_inv :: "selection \<Rightarrow> proc \<Rightarrow> bool" where
  "paging_inv sel p = (if 1 < pid p then tracked sel p else untracked p)"

text \<open>
  \<open>counts_agree\<close>: the three counts of a process. The queue is as long as
  \<open>pagesInMemory\<close> under SCFIFO and empty otherwise.
\<close>

definition counts_agree :: "selection \<Rightarrow> proc \<Rightarrow> bool" where
  "counts_agree sel p \<longleftrightarrow>
     count_inUse p = pagesInMemory p \<and> pagesInMemory p \<le> MAX_PSYC_PAGES \<and>
     numOfPages p = (if sel = SCFIFO then pagesInMemory p else 0)"

text \<open>
  What a step may change. \<open>queue_frame\<close>: only the queue. \<open>alloc_frame\<close>: the frame list
  and the page table, with the same pages mapped. \<open>map_frame p p' n\<close>: the same, with
  page \<open>n\<close> newly mapped.
\<close>

definition queue_frame :: "proc \<Rightarrow> proc \<Rightarrow> bool" where
  "queue_frame p p' \<longleftrightarrow>
     pid p' = pid p \<and> sz p' = sz p \<and> data p' = data p \<and>
     pagesInMemory p' = pagesInMemory p \<and> pt_l1 p' = pt_l1 p \<and> pt_l0 p' = pt_l0 p \<and>
     pt_pte p' = pt_pte p \<and> freelist p' = freelist p \<and>
     swap_write_fails p' = swap_write_fails p"

definition alloc_frame :: "proc \<Rightarrow> proc \<Rightarrow> bool" where
  "alloc_frame p p' \<longleftrightarrow>
     pid p' = pid p \<and> sz p' = sz p \<and> data p' = data p \<and>
     pagesInMemory p' = pagesInMemory p \<and> head p' = head p \<and> tail p' = tail p \<and>
     pages p' = pages p \<and> numOfPages p' = numOfPages p \<and>
     swap_write_fails p' = swap_write_fails p \<and> mapped p' = mapped p"

definition map_frame :: "proc \<Rightarrow> proc \<Rightarrow> nat \<Rightarrow> bool" where
  "map_frame p p' n \<longleftrightarrow>
     pid p' = pid p \<and> sz p' = sz p \<and> data p' = data p \<and>
     pagesInMemory p' = pagesInMemory p \<and> head p' = head p \<and> tail p' = tail p \<and>
     pages p' = pages p \<and> numOfPages p' = numOfPages p \<and>
     swap_write_fails p' = swap_write_fails p \<and> \<not> mapped p n \<and>
     (\<forall>i. mapped p' i = (i = n \<or> mapped p i))"

text \<open>
  The operations that change the bookkeeping, as the kernel calls them on the page table
  of the process itself: \<open>uvmalloc\<close> from \<open>growproc\<close>, to a size of at most
  \<open>MAX_TOTAL_PAGES\<close> pages (the test in \<open>uvmalloc\<close> lets one page more through, which has
  no entry in the table), \<open>uvmunmap\<close> with \<open>do_free\<close> set, \<open>page_to_file\<close> for a process
  that has a resident page, and \<open>swap_in\<close> from the fault handler, with the pointer to
  the PTE of the faulting page, which is below \<open>MAX_TOTAL_PAGES\<close>, present and not valid.
  \<open>op_pre\<close> holds these conditions of the call sites; \<open>ops_pre\<close> asks for them at every
  call of a sequence.
\<close>

datatype paging_op =
    Grow "64 word" "64 word"
  | Unmap "64 word" "64 word"
  | Page_out "32 word"
  | Swap_in "64 word" nat

fun run_op :: "selection \<Rightarrow> paging_op \<Rightarrow> proc \<Rightarrow> fault + proc" where
  "run_op sel (Grow oldsz newsz) p = map_sum id snd (uvmalloc sel oldsz newsz p)"
| "run_op sel (Unmap va npages) p = uvmunmap sel va npages True p"
| "run_op sel (Page_out pageOffset) p = page_to_file sel pageOffset p"
| "run_op sel (Swap_in va pte) p = swap_in sel va pte p"

fun op_pre :: "paging_op \<Rightarrow> proc \<Rightarrow> bool" where
  "op_pre (Grow oldsz newsz) p \<longleftrightarrow> unat newsz \<le> nat MAX_TOTAL_PAGES * PGSIZE"
| "op_pre (Unmap va npages) p = True"
| "op_pre (Page_out pageOffset) p \<longleftrightarrow> 1 < pid p \<and> 0 < pagesInMemory p"
| "op_pre (Swap_in va pte) p \<longleftrightarrow>
     1 < pid p \<and> int pte = missingPageIndex va \<and> pte < nat MAX_TOTAL_PAGES \<and>
     leaf_present p pte \<and> pt_pte p pte AND PTE_V = 0"

fun run_ops :: "selection \<Rightarrow> paging_op list \<Rightarrow> proc \<Rightarrow> fault + proc" where
  "run_ops sel [] p = Inr p"
| "run_ops sel (x # xs) p =
     (case run_op sel x p of Inl e \<Rightarrow> Inl e | Inr p' \<Rightarrow> run_ops sel xs p')"

fun ops_pre :: "selection \<Rightarrow> paging_op list \<Rightarrow> proc \<Rightarrow> bool" where
  "ops_pre sel [] p = True"
| "ops_pre sel (x # xs) p \<longleftrightarrow>
     op_pre x p \<and> (case run_op sel x p of Inl e \<Rightarrow> True | Inr p' \<Rightarrow> ops_pre sel xs p')"

section \<open>The resident queue: \<open>removePage\<close>\<close>

lemma queue_queue3: "queue queue3 = [10, 11, 12]"
  by (simp add: queue_def queue3_def fresh_proc_def upt_conv_Cons)

text \<open>
  C5. \<open>removePage\<close> is meant to take every element out and put back all but the given
  page, which would leave the survivors in their order. Its loop reads \<open>numOfPages\<close> at
  every round, and the round that drops the page lowers it, so the loop stops one round
  early and the last element is never moved behind the others. On the queue 10, 11, 12
  the call \<open>removePage(10)\<close> leaves 12, 11 and not 11, 12; \<open>removePage(11)\<close> leaves 12, 10
  and not 10, 12. Only the removal of the last element keeps the order.
\<close>

theorem removePage_moves_last_to_head:
  "map_sum id queue (removePage 10 queue3) = Inr [12, 11] \<and>
   map_sum id queue (removePage 11 queue3) = Inr [12, 10] \<and>
   map_sum id queue (removePage 12 queue3) = Inr [10, 11]"
  by (simp add: removePage_def removePage_loop.simps in_q_def out_def pages_at_def queue_def
      queue3_def fresh_proc_def upt_conv_Cons)

section \<open>Growth: the value of \<open>uvmalloc\<close>\<close>

text \<open>
  C2. Growth past the cap is refused with \<open>return -1\<close>, which in the \<open>uint64\<close> result is
  \<open>2^64 - 1\<close>: neither the new size nor 0, the value every other failure of the function
  returns and the one its callers test. A process of 33 pages that asks for one more
  byte gets this value under each of the three policies, and its state is left as it was.
\<close>

theorem uvmalloc_reject_returns_minus_one:
  "uvmalloc NFUA 0x21000 0x21001 fresh_proc = Inr (0xFFFFFFFFFFFFFFFF, fresh_proc) \<and>
   uvmalloc LAPA 0x21000 0x21001 fresh_proc = Inr (0xFFFFFFFFFFFFFFFF, fresh_proc) \<and>
   uvmalloc SCFIFO 0x21000 0x21001 fresh_proc = Inr (0xFFFFFFFFFFFFFFFF, fresh_proc)"
  by (simp add: uvmalloc_def PGROUNDUP_def uvmalloc_loop.simps uvmalloc_body_def fresh_proc_def)

section \<open>NFUA\<close>

text \<open>
  C3. \<open>nfua\<close> starts its search for the minimum at \<open>1 << 31\<close> and takes a page only when
  its counter is strictly below. A resident page that was accessed in the last tick has
  a counter of at least \<open>1 << 31\<close>; when page 3 is the only candidate and has this counter,
  \<open>nfua\<close> returns \<open>-1\<close> and not 3.
\<close>

theorem nfua_misses_recently_used_page:
  "inUse (data touched3 3) \<and> agingCounter (data touched3 3) = 2 ^ 31 \<and> nfua touched3 = - 1"
  by (simp add: nfua_def nfua_step_def touched3_def fresh_proc_def upt_conv_Cons)

section \<open>Swap-file offsets: \<open>getOffset\<close>\<close>

lemma offset_inUse_iff:
  "offset_inUse p i \<longleftrightarrow> (\<exists>j<32. offset (data p j) = word_of_nat i)"
  by (auto simp: offset_inUse_def list_ex_iff)

lemma getOffset_loop_finds:
  assumes "k0 \<le> k" "k * PGSIZE < unat (sz p)" "\<not> offset_inUse p (k * PGSIZE)"
    and "\<forall>k'. k0 \<le> k' \<and> k' < k \<longrightarrow> offset_inUse p (k' * PGSIZE)"
  shows "getOffset_loop (k0 * PGSIZE) p = word_of_nat (k * PGSIZE)"
  using assms
proof (induction "k - k0" arbitrary: k0)
  case 0
  then have "k0 = k" by simp
  with 0 show ?case by (simp add: getOffset_loop.simps)
next
  case (Suc d)
  then have lt: "k0 < k" by simp
  then have "k0 * PGSIZE < unat (sz p)" using Suc.prems(2) by simp
  moreover have "offset_inUse p (k0 * PGSIZE)" using Suc.prems(4) lt by simp
  moreover have "getOffset_loop (Suc k0 * PGSIZE) p = word_of_nat (k * PGSIZE)"
    using Suc.hyps(2) Suc.prems lt by (intro Suc.hyps(1)) auto
  ultimately show ?case
    by (subst getOffset_loop.simps) (simp add: add.commute)
qed

lemma getOffset_loop_none:
  "\<forall>k'. k0 \<le> k' \<and> k' * PGSIZE < unat (sz p) \<longrightarrow> offset_inUse p (k' * PGSIZE) \<Longrightarrow>
   getOffset_loop (k0 * PGSIZE) p = 0"
proof (induction "unat (sz p) - k0 * PGSIZE" arbitrary: k0 rule: less_induct)
  case less
  show ?case
  proof (cases "k0 * PGSIZE < unat (sz p)")
    case True
    then have "offset_inUse p (k0 * PGSIZE)" using less.prems by simp
    moreover have "getOffset_loop (Suc k0 * PGSIZE) p = 0"
      using True less.prems by (intro less.hyps) auto
    ultimately show ?thesis using True
      by (subst getOffset_loop.simps) (simp add: add.commute)
  next
    case False
    then show ?thesis by (subst getOffset_loop.simps) simp
  qed
qed

text \<open>
  At most 32 offsets are taken, so the first free multiple of \<open>PGSIZE\<close> is at most the
  32nd: the counter of the loop stays far below the range of an \<open>int\<close>.
\<close>

lemma taken_prefix_bound:
  assumes "\<forall>k'<k. offset_inUse p (k' * PGSIZE)"
  shows "k \<le> 32"
proof (rule ccontr)
  assume "\<not> k \<le> 32"
  then have k: "32 < k" by simp
  let ?f = "\<lambda>k'. (word_of_nat (k' * PGSIZE) :: 32 word)"
  let ?offs = "(\<lambda>j. offset (data p j)) ` {..<32}"
  have inj: "inj_on ?f {..32}"
  proof (rule inj_onI)
    fix x y :: nat
    assume "x \<in> {..32}" "y \<in> {..32}" and eq: "?f x = ?f y"
    then have bx: "x * PGSIZE < 2 ^ 32" and byy: "y * PGSIZE < 2 ^ 32" by auto
    have u: "unat (word_of_nat n :: 32 word) = n" if "n < 2 ^ 32" for n
      using that by (simp add: unat_of_nat)
    have "x * PGSIZE = unat (?f x)"
      by (rule u [OF bx, symmetric])
    also have "\<dots> = unat (?f y)"
      by (rule arg_cong [OF eq])
    also have "\<dots> = y * PGSIZE"
      by (rule u [OF byy])
    finally show "x = y" by simp
  qed
  have "?f ` {..32} \<subseteq> ?offs"
  proof
    fix w assume "w \<in> ?f ` {..32}"
    then obtain k' where "k' \<le> 32" "w = ?f k'" by auto
    with k assms have "offset_inUse p (k' * PGSIZE)" by simp
    then obtain j where "j < 32" "offset (data p j) = ?f k'"
      unfolding offset_inUse_iff by blast
    with \<open>w = ?f k'\<close> show "w \<in> ?offs"
      by (metis imageI lessThan_iff)
  qed
  then have "card (?f ` {..32}) \<le> card ?offs"
    by (intro card_mono) auto
  moreover have "card (?f ` {..32}) = 33"
    using inj by (simp add: card_image)
  moreover have "card ?offs \<le> 32"
    using card_image_le [of "{..<32::nat}" "\<lambda>j. offset (data p j)"] by simp
  ultimately show False by simp
qed



text \<open>
  What the loop computes. When some multiple of \<open>PGSIZE\<close> below \<open>sz\<close> is the offset of no
  entry of \<open>data\<close>, \<open>getOffset\<close> returns the smallest one (\<open>k\<close> is its index: it is free
  and all below it are taken), it is at most \<open>32 * PGSIZE\<close>, and no entry has it. When
  there is none, the loop ends and \<open>getOffset\<close> returns \<open>found\<close>, which is 0.
\<close>

lemma getOffset_first_free_or_zero:
  "(k * PGSIZE < unat (sz p) \<and> \<not> offset_inUse p (k * PGSIZE) \<and>
      (\<forall>k'<k. offset_inUse p (k' * PGSIZE))
    \<longrightarrow> getOffset p = word_of_nat (k * PGSIZE) \<and> k \<le> 32 \<and>
        (\<forall>j<32. offset (data p j) \<noteq> getOffset p)) \<and>
   ((\<forall>k. k * PGSIZE < unat (sz p) \<longrightarrow> offset_inUse p (k * PGSIZE)) \<longrightarrow> getOffset p = 0)"
proof (intro conjI impI)
  assume a: "k * PGSIZE < unat (sz p) \<and> \<not> offset_inUse p (k * PGSIZE) \<and>
      (\<forall>k'<k. offset_inUse p (k' * PGSIZE))"
  then show g: "getOffset p = word_of_nat (k * PGSIZE)"
    using getOffset_loop_finds [of 0 k p] by (simp add: getOffset_def)
  from a show "k \<le> 32"
    by (intro taken_prefix_bound [of k p]) simp
  from a show "\<forall>j<32. offset (data p j) \<noteq> getOffset p"
    unfolding g offset_inUse_iff by blast
next
  assume "\<forall>k. k * PGSIZE < unat (sz p) \<longrightarrow> offset_inUse p (k * PGSIZE)"
  then show "getOffset p = 0"
    using getOffset_loop_none [of 0 p] by (simp add: getOffset_def)
qed


lemma getOffset_swapped2_full1:
  "getOffset swapped2 = 0x2000 \<and> getOffset full1 = 0"
proof -
  have "\<forall>k'<2. offset_inUse swapped2 (k' * PGSIZE)"
    by (simp add: offset_inUse_def swapped2_def fresh_proc_def upt_conv_Cons less_Suc_eq numeral_2_eq_2)
  moreover have "\<not> offset_inUse swapped2 (2 * PGSIZE)" "2 * PGSIZE < unat (sz swapped2)"
    by (simp_all add: offset_inUse_def swapped2_def fresh_proc_def upt_conv_Cons)
  ultimately have "getOffset swapped2 = word_of_nat (2 * PGSIZE) \<and>
      (\<forall>j<32. offset (data swapped2 j) \<noteq> getOffset swapped2)"
    using getOffset_first_free_or_zero [of 2 swapped2] by blast
  moreover have "\<forall>k. k * PGSIZE < unat (sz full1) \<longrightarrow> offset_inUse full1 (k * PGSIZE)"
    by (simp add: offset_inUse_def full1_def fresh_proc_def upt_conv_Cons)
  then have "getOffset full1 = 0"
    using getOffset_first_free_or_zero [of 0 full1] by blast
  ultimately show ?thesis by simp
qed

text \<open>
  C8. The comment on \<open>getOffset\<close> says that it returns the first empty offset, and the
  claim that its result is always a slot that no paged-out page occupies. In \<open>full1\<close> the
  file has one slot, at offset 0, and page 0 is paged out to it: \<open>getOffset\<close> returns 0,
  the occupied slot. \<open>found\<close> is never set, so the value after the loop is 0 whenever no
  slot is free, also for \<open>sz = 0\<close>, where the range \<open>[0, sz)\<close> has no offset at all.
\<close>

theorem getOffset_occupied_slot:
  "getOffset full1 = 0 \<and> offset (data full1 0) = 0 \<and> getOffset fresh_proc = 0 \<and> sz fresh_proc = 0"
  by (simp add: getOffset_def getOffset_loop.simps offset_inUse_def full1_def fresh_proc_def upt_conv_Cons)

section \<open>NFUA without a victim\<close>

lemma nfua_fold_keeps:
  "\<forall>i\<in>set js. inUse (data p i) \<longrightarrow> 2 ^ 31 \<le> agingCounter (data p i) \<Longrightarrow>
   fold (nfua_step p) js (2 ^ 31, - 1) = (2 ^ 31, - 1)"
  by (induction js) (auto simp: nfua_step_def)

text \<open>
  C10. When no page from index 3 on is in use, or each one in use has a counter of at
  least \<open>2^31\<close>, \<open>nfua\<close> returns \<open>-1\<close>. \<open>page_to_file\<close> does not look at the index:
  it multiplies it by \<open>PGSIZE\<close> and walks the page table at this address, the top page
  of the 64-bit range, where \<open>walk\<close> panics because the address is not below \<open>MAXVA\<close>.
\<close>

theorem nfua_minus_one_reaches_walk:
  assumes "\<forall>i. 3 \<le> i \<and> i < 32 \<and> inUse (data p i) \<longrightarrow> 2 ^ 31 \<le> agingCounter (data p i)"
  shows "nfua p = - 1 \<and>
         getIndexToRemove NFUA p = Inr (- 1, p) \<and>
         page_va (- 1) = Inr 0xFFFFFFFFFFFFF000 \<and>
         walk p 0xFFFFFFFFFFFFF000 False = Inl (PANIC ''walk'') \<and>
         page_to_file NFUA pageOffset p = Inl (PANIC ''walk'')"
proof -
  have n: "nfua p = - 1"
    using assms nfua_fold_keeps [of "[3..<32]" p] by (simp add: nfua_def)
  have v: "page_va (- 1) = Inr 0xFFFFFFFFFFFFF000"
    by (simp add: page_va_def)
  have w: "walk p 0xFFFFFFFFFFFFF000 False = Inl (PANIC ''walk'')"
    by (simp add: walk_def)
  show ?thesis
    using n v w by (simp add: page_to_file_def getIndexToRemove_def)
qed


text \<open>
  Such a state is reached by growth, access and one tick: in \<open>warm4\<close> page 3 is in use
  and its counter is \<open>2^31\<close>.
\<close>

lemma warm4_state:
  "\<exists>P. warm4 = Inr P \<and> pid P = 2 \<and> pagesInMemory P = 4 \<and> inUse (data P 3) \<and>
     (\<forall>i. i < 32 \<and> inUse (data P i) \<longrightarrow> agingCounter (data P i) = 2 ^ 31)"
  by (simp add: warm4_def touch_def updateAging_def updateAging_step_def
      uvmalloc_def uvmalloc_loop.simps uvmalloc_body_def alloc_and_map_def kalloc_def mappages_def
  mappages_loop.simps walk_def walk_level2_def walk_level1_def initAging_def PGROUNDUP_def PGROUNDDOWN_def
  PTE_V_def PTE_R_def PTE_W_def PTE_X_def PTE_U_def PTE_A_def PTE_PG_def PA2PTE_def
  boot_proc_def fresh_proc_def upt_conv_Cons Let_def)


theorem nfua_minus_one_reaches_walk_witness:
  "(case warm4 of
      Inl e \<Rightarrow> False
    | Inr P \<Rightarrow> inUse (data P 3) \<and> nfua P = - 1 \<and>
        page_to_file NFUA 0 P = Inl (PANIC ''walk''))"
proof -
  obtain P where P: "warm4 = Inr P" "inUse (data P 3)"
    and a: "\<forall>i. i < 32 \<and> inUse (data P i) \<longrightarrow> agingCounter (data P i) = 2 ^ 31"
    using warm4_state by blast
  from a have "\<forall>i. 3 \<le> i \<and> i < 32 \<and> inUse (data P i) \<longrightarrow> 2 ^ 31 \<le> agingCounter (data P i)"
    by simp
  then have "nfua P = - 1 \<and> page_to_file NFUA 0 P = Inl (PANIC ''walk'')"
    using nfua_minus_one_reaches_walk [of P 0] by blast
  with P(2) show ?thesis
    unfolding P(1) by simp
qed

section \<open>The resident queue as a list\<close>

lemma mod32_pred: "(n + 31) mod 32 = (n - 1) mod (32::int)"
proof -
  have "(n - 1 + 32) mod 32 = (n - 1) mod (32::int)" by (rule mod_add_self2)
  then show ?thesis by (simp add: algebra_simps)
qed

lemma mod32_out_tail: "(t + 1) mod 32 = (h + n) mod 32 \<Longrightarrow>
   (t + 1) mod 32 = ((if h = 31 then 0 else h + 1) + (n - 1)) mod (32::int)"
  using mod32_pred [of n] by (auto simp: algebra_simps)

lemma mod32_out_head: "((if h = 31 then 0 else h + 1) + k) mod 32 = (h + (k + 1)) mod (32::int)"
  using mod32_pred [of "k + 1"] by (auto simp: algebra_simps)

lemma mod32_in_tail: "- 1 \<le> t \<Longrightarrow> t < 32 \<Longrightarrow> (t + 1) mod 32 = (h + n) mod 32 \<Longrightarrow>
   (if t = 31 then - 1 else t) + 1 = (h + n) mod (32::int)"
  by (auto split: if_splits)

lemma mod32_in_next: "t = (h + n) mod 32 \<Longrightarrow> (t + 1) mod 32 = (h + (n + 1)) mod (32::int)"
  by (simp add: mod_simps algebra_simps) 

lemma mod32_distinct: "0 \<le> k \<Longrightarrow> k < n \<Longrightarrow> n < 32 \<Longrightarrow> (h + k) mod 32 \<noteq> (h + n) mod (32::int)"
proof
  assume a: "0 \<le> k" "k < n" "n < 32" and e: "(h + k) mod 32 = (h + n) mod 32"
  then have "(h + n - (h + k)) mod 32 = 0"
    by (metis mod_eq_dvd_iff mod_0_imp_dvd dvd_imp_mod_0  cancel_comm_monoid_add_class.diff_cancel  mod_diff_cong) 
  then have "(n - k) mod 32 = 0" by simp
  moreover have "0 < n - k" "n - k < 32" using a by auto
  ultimately show False by simp
qed


lemma length_queue [simp]: "length (queue p) = nat (numOfPages p)"
  by (simp add: queue_def)

lemma queue_Nil_iff: "queue p = [] \<longleftrightarrow> numOfPages p \<le> 0"
  by (simp add: queue_def)

lemma queue_nth:
  "k < nat (numOfPages p) \<Longrightarrow> queue p ! k = pages p (nat ((head p + int k) mod MAX_TOTAL_PAGES))"
  by (simp add: queue_def)

lemma pages_at_head:
  assumes "wfq p" "0 < numOfPages p"
  shows "pages_at p (head p) = Inr (hd (queue p))"
proof -
  have "queue p \<noteq> []" using assms by (simp add: queue_Nil_iff)
  then have "hd (queue p) = queue p ! 0" by (simp add: hd_conv_nth)
  also have "\<dots> = pages p (nat (head p))"
    using assms by (simp add: queue_nth wfq_def)
  finally show ?thesis using assms by (simp add: pages_at_def wfq_def)
qed

lemma out_queue:
  assumes "wfq p" "0 < numOfPages p"
  shows "wfq (out p)" and "queue (out p) = tl (queue p)"
proof -
  have "(tail p + 1) mod 32 = ((if head p = 31 then 0 else head p + 1) + (numOfPages p - 1)) mod 32"
    using assms unfolding wfq_def by (intro mod32_out_tail) simp
  then show "wfq (out p)"
    using assms unfolding wfq_def out_def by simp
  show "queue (out p) = tl (queue p)"
  proof (rule nth_equalityI)
    show "length (queue (out p)) = length (tl (queue p))"
      using assms by (simp add: out_def)
  next
    fix k assume "k < length (queue (out p))"
    then have k: "int k < numOfPages p - 1" by (simp add: out_def)
    then have "queue (out p) ! k = pages p (nat ((head (out p) + int k) mod 32))"
      by (simp add: queue_def out_def)
    moreover have "((if head p = 31 then 0 else head p + 1) + int k) mod 32 = (head p + (int k + 1)) mod 32"
      by (rule mod32_out_head)
    then have "(head (out p) + int k) mod 32 = (head p + int (Suc k)) mod 32"
      by (simp add: out_def add.commute)
    moreover have "tl (queue p) ! k = queue p ! Suc k"
      using k by (simp add: nth_tl)
    moreover have "queue p ! Suc k = pages p (nat ((head p + int (Suc k)) mod 32))"
      using k by (intro queue_nth) simp
    ultimately show "queue (out p) ! k = tl (queue p) ! k" by simp
  qed
qed

lemma in_q_queue:
  assumes "wfq p" "numOfPages p < MAX_TOTAL_PAGES"
  obtains t pg where
    "in_q x p = Inr (p\<lparr>tail := t, pages := pg, numOfPages := numOfPages p + 1\<rparr>)"
    "wfq (p\<lparr>tail := t, pages := pg, numOfPages := numOfPages p + 1\<rparr>)"
    "queue (p\<lparr>tail := t, pages := pg, numOfPages := numOfPages p + 1\<rparr>) = queue p @ [x]"
proof -
  define t where "t = (if tail p = 31 then - 1 else tail p) + 1"
  have t3: "t = (head p + numOfPages p) mod 32"
    using assms unfolding wfq_def t_def by (intro mod32_in_tail) simp_all
  then have t: "0 \<le> t" "t < 32" "t = (head p + numOfPages p) mod 32"
    by simp_all
  define p' where "p' = p\<lparr>tail := t, pages := (pages p)(nat t := x), numOfPages := numOfPages p + 1\<rparr>"
  have r: "in_q x p = Inr p'"
    using t by (simp add: in_q_def p'_def t_def Let_def)
  have "(t + 1) mod 32 = (head p + (numOfPages p + 1)) mod 32"
    using t(3) by (rule mod32_in_next)
  then have w: "wfq p'"
    using assms t(1,2) unfolding wfq_def p'_def by simp
  have q: "queue p' = queue p @ [x]"
  proof (rule nth_equalityI)
    show "length (queue p') = length (queue p @ [x])"
      using assms by (simp add: p'_def wfq_def nat_add_distrib)
  next
    fix k assume "k < length (queue p')"
    then have k: "int k \<le> numOfPages p" using assms by (simp add: p'_def wfq_def)
    show "queue p' ! k = (queue p @ [x]) ! k"
    proof (cases "int k = numOfPages p")
      case True
      then have "queue p' ! k = pages p' (nat ((head p + numOfPages p) mod 32))"
        using assms by (simp add: queue_def p'_def wfq_def)
      also have "\<dots> = x" using t by (simp add: p'_def)
      finally have "queue p' ! k = x" .
      moreover have "k = length (queue p)" using True by simp
      ultimately show ?thesis by (simp only: nth_append_length)
    next
      case False
      with k have lt: "int k < numOfPages p" by simp
      then have kl: "k < nat (numOfPages p)" by linarith
      then have ne: "(head p + int k) mod 32 \<noteq> t"
        using assms(2) unfolding t(3) by (intro mod32_distinct) simp_all
      have "queue p' ! k = pages p' (nat ((head p + int k) mod 32))"
        using kl by (simp add: queue_def p'_def)
      also have "\<dots> = pages p (nat ((head p + int k) mod 32))"
        using ne t by (simp add: p'_def nat_eq_iff)
      also have "\<dots> = queue p ! k"
        using kl by (simp add: queue_nth)
      finally show ?thesis using kl by (simp add: nth_append)
    qed
  qed
  show ?thesis using r w q that [where t = t and pg = "(pages p)(nat t := x)"] by (simp add: p'_def)
qed

section \<open>Walking to the PTE of a page\<close>

lemma walk_no_alloc:
  "walk p va False =
     (if MAXVA \<le> unat va then Inl (PANIC ''walk'')
      else Inr (if pt_l1 p (unat va div 2 ^ 30) \<and> pt_l0 p (unat va div 2 ^ 21)
                then Some (unat va div PGSIZE) else None, p))"
  by (simp add: walk_def walk_level2_def walk_level1_def)

lemma uint_page_va:
  "uint (word_of_int (x * 4096) :: 64 word) = (x * 4096) mod 2 ^ 64"
  using uint_word_of_int [of "x * 4096", where 'a = 64] by simp

lemma unat_page_va:
  assumes "0 \<le> x" "x < 2 ^ 19"
  shows "unat (word_of_int (x * 4096) :: 64 word) = nat x * 4096"
proof -
  have "(x * 4096) mod 2 ^ 64 = x * 4096"
    using assms by (intro mod_pos_pos_trivial) auto
  then have "uint (word_of_int (x * 4096) :: 64 word) = x * 4096"
    using uint_page_va [of x] by simp
  then show ?thesis
    using assms unat_eq_nat_uint [of "word_of_int (x * 4096) :: 64 word"]
    by (simp add: nat_mult_distrib)
qed

lemma unat_page_va_neg:
  assumes "x < 0" "- (2 ^ 19) \<le> x"
  shows "MAXVA \<le> unat (word_of_int (x * 4096) :: 64 word)"
proof -
  have "(x * 4096) mod 2 ^ 64 = (x * 4096 + 2 ^ 64) mod 2 ^ 64"
    by simp
  also have "\<dots> = x * 4096 + 2 ^ 64"
    using assms by (intro mod_pos_pos_trivial) auto
  finally have "uint (word_of_int (x * 4096) :: 64 word) = x * 4096 + 2 ^ 64"
    using uint_page_va [of x] by simp
  then show ?thesis
    using assms unat_eq_nat_uint [of "word_of_int (x * 4096) :: 64 word"] by simp
qed

lemma pte_of_SomeD:
  assumes "pte_of p x = Some n"
  shows "0 \<le> x" "x < 2 ^ 19" "n = nat x"
    "page_va x = Inr (word_of_int (x * 4096))"
    "walk p (word_of_int (x * 4096)) False = Inr (Some n, p)"
proof -
  have r: "- (2 ^ 19) \<le> x" "x < 2 ^ 19" and v: "page_va x = Inr (word_of_int (x * 4096))"
    using assms by (auto simp: pte_of_def page_va_def split: if_splits)
  have w: "walk p (word_of_int (x * 4096)) False = Inr (Some n, p)"
    using assms v by (auto simp: pte_of_def walk_no_alloc split: if_splits)
  have nn: "0 \<le> x"
  proof (rule ccontr)
    assume "\<not> 0 \<le> x"
    then have "MAXVA \<le> unat (word_of_int (x * 4096) :: 64 word)"
      using r by (intro unat_page_va_neg) auto
    with w show False by (simp add: walk_no_alloc)
  qed
  have "n = nat x"
    using w unat_page_va [OF nn r(2)] by (auto simp: walk_no_alloc split: if_splits)
  with nn r v w show "0 \<le> x" "x < 2 ^ 19" "n = nat x"
    "page_va x = Inr (word_of_int (x * 4096))"
    "walk p (word_of_int (x * 4096)) False = Inr (Some n, p)"
    by auto
qed


section \<open>SCFIFO when every queued page was accessed\<close>

lemma wfq_cong:
  "head p' = head p \<Longrightarrow> tail p' = tail p \<Longrightarrow> numOfPages p' = numOfPages p \<Longrightarrow> wfq p' = wfq p"
  by (simp add: wfq_def)

lemma queue_cong:
  "head p' = head p \<Longrightarrow> pages p' = pages p \<Longrightarrow> numOfPages p' = numOfPages p \<Longrightarrow>
   queue p' = queue p"
  by (simp add: queue_def)








lemma second_chance2_queue: "queue second_chance2 = [5, 6]"
  by (simp add: queue_def second_chance2_def fresh_proc_def upt_conv_Cons)



section \<open>Swap-out: \<open>page_to_file\<close>\<close>

lemma victim_frame_refl: "victim_frame p p"
  by (simp add: victim_frame_def)

lemma victim_frame_trans: "victim_frame p q \<Longrightarrow> victim_frame q r \<Longrightarrow> victim_frame p r"
  by (simp add: victim_frame_def)

lemma victim_frame_out: "victim_frame p (out p)"
  by (simp add: victim_frame_def out_def)

lemma victim_frame_in_q: "in_q x p = Inr p' \<Longrightarrow> victim_frame p p'"
  by (auto simp: victim_frame_def in_q_def Let_def split: if_splits)

lemma victim_frame_clear:
  "victim_frame p (p\<lparr>pt_pte := (pt_pte p)(n := pt_pte p n AND NOT PTE_A)\<rparr>)"
  by (simp add: victim_frame_def and.assoc)

lemma scfifo_loop_frame:
  "scfifo_loop i p = Inr (v, p') \<Longrightarrow> victim_frame p p'"
proof (induction i p rule: scfifo_loop.induct)
  case (1 i p)
  show ?case
  proof (cases "i < numOfPages p")
    case False
    with "1.prems" have "p' = out p"
      by (subst (asm) scfifo_loop.simps) (auto split: sum.splits)
    then show ?thesis by (simp add: victim_frame_out)
  next
    case True
    from "1.prems" True obtain page va n q where
      pg: "pages_at p (head p) = Inr page" and va: "page_va page = Inr va"
      and w: "walk p va False = Inr (Some n, q)"
      by (subst (asm) scfifo_loop.simps)
        (auto split: sum.splits option.splits if_splits prod.splits)
    show ?thesis
    proof (cases "PTE_FLAGS (pt_pte p n) AND PTE_A \<noteq> 0")
      case False
      with "1.prems" True pg va w have "p' = out p"
        by (subst (asm) scfifo_loop.simps) simp
      then show ?thesis by (simp add: victim_frame_out)
    next
      case acc: True
      define p1 where "p1 = p\<lparr>pt_pte := (pt_pte p)(n := pt_pte p n AND NOT PTE_A)\<rparr>"
      from "1.prems" True pg va w acc obtain p2 where
        i: "in_q page (out p1) = Inr p2" and r: "scfifo_loop (i + 1) p2 = Inr (v, p')"
        by (subst (asm) scfifo_loop.simps) (auto simp: p1_def split: sum.splits)
      have "victim_frame p2 p'"
        using "1.IH" [OF True pg va w _ _ acc i [unfolded p1_def] r] by simp
      moreover have "victim_frame p p2"
        using victim_frame_clear [of p n] victim_frame_out [of p1] victim_frame_in_q [OF i]
        unfolding p1_def [symmetric] by (blast intro: victim_frame_trans)
      ultimately show ?thesis by (rule victim_frame_trans [rotated])
    qed
  qed
qed


lemma getIndexToRemove_frame:
  assumes "getIndexToRemove sel p = Inr (v, p1)"
  shows "victim_frame p p1" and "sel \<noteq> SCFIFO \<Longrightarrow> p1 = p"
  using assms scfifo_loop_frame [of 0 p v p1]
  by (auto simp: getIndexToRemove_def scfifo_def victim_frame_refl split: selection.splits)

lemma bit_PTE_V: "bit PTE_V b \<longleftrightarrow> b = 0"
  by (simp add: PTE_V_def bit_1_iff)

lemma bit_PTE_PG: "bit PTE_PG b \<longleftrightarrow> b = 9"
proof -
  have e: "(512 :: 64 word) = 2 ^ 9" by simp
  show ?thesis unfolding PTE_PG_def e bit_exp_iff by auto
qed

lemma bit_PTE_A: "bit PTE_A b \<longleftrightarrow> b = 6"
proof -
  have e: "(64 :: 64 word) = 2 ^ 6" by simp
  show ?thesis unfolding PTE_A_def e bit_exp_iff by auto
qed



lemma paged_out_V: "((w AND NOT PTE_V) OR PTE_PG) AND PTE_V = 0" for w :: pte_t
  by (rule bit_eqI) (auto simp: bit_simps bit_PTE_V bit_PTE_PG)


lemma walk_page_va:
  assumes "page_va v = Inr va" "walk p va False = Inr (Some n, q)"
  shows "0 \<le> v" "n = nat v"
  using assms pte_of_SomeD(1,3) [of p v n] by (auto simp: pte_of_def)





lemma second_chance2_page_out:
  "\<exists>p'. page_to_file SCFIFO 0x3000 second_chance2 = Inr p'"
  by (simp add: page_to_file_def getIndexToRemove_def scfifo_def scfifo_loop.simps pages_at_def
      page_va_def walk_no_alloc in_q_def out_def PTE_FLAGS_def PTE_A_def kfree_def
      second_chance2_def fresh_proc_def)


section \<open>Swap-in\<close>







lemma initAging_frame:
  assumes "initAging sel x q = Inr (age, q')"
  shows "victim_frame q q'" "pt_pte q' = pt_pte q" "age = (if sel = LAPA then - 1 else 0)"
proof -
  have "victim_frame q q' \<and> pt_pte q' = pt_pte q \<and> age = (if sel = LAPA then - 1 else 0)"
  proof (cases sel)
    case SCFIFO
    with assms obtain r where r: "in_q x q = Inr r" "q' = r" "age = 0"
      by (auto simp: initAging_def split: sum.splits)
    then have "pt_pte r = pt_pte q"
      by (auto simp: in_q_def Let_def split: if_splits)
    with r SCFIFO victim_frame_in_q [OF r(1)] show ?thesis by simp
  qed (use assms in \<open>auto simp: initAging_def victim_frame_refl\<close>)
  then show "victim_frame q q'" "pt_pte q' = pt_pte q" "age = (if sel = LAPA then - 1 else 0)"
    by simp_all
qed








lemma swapped7_swap_in: "\<exists>p'. swap_in NFUA 0x7123 7 swapped7 = Inr p'"
  by (simp add: swap_in_def missingPageIndex_def PGROUNDDOWN_def kalloc_def initAging_def
      swapped7_def fresh_proc_def)

lemma full16_nfua: "nfua (full16\<lparr>freelist := []\<rparr>) = 3"
  by (simp add: nfua_def nfua_step_def full16_def fresh_proc_def upt_conv_Cons)

lemma full16_page_out:
  "\<exists>q. page_to_file NFUA 0x2000 (full16\<lparr>freelist := []\<rparr>) = Inr q \<and> pt_pte q 20 = 0x2004621E \<and>
     data q 3 = \<lparr>inUse = False, offset = 0x2000, agingCounter = 0\<rparr> \<and> pagesInMemory q = 15"
  by (simp add: page_to_file_def getIndexToRemove_def full16_nfua page_va_def walk_no_alloc kfree_def)
    (simp add: full16_def fresh_proc_def)

lemma full16_swap_in: "\<exists>p'. swap_in NFUA 0x14000 20 full16 = Inr p'"
proof -
  obtain q where "page_to_file NFUA 0x2000 (full16\<lparr>freelist := []\<rparr>) = Inr q"
    using full16_page_out by blast
  moreover have "freelist full16 = [0x80200000]" "pagesInMemory full16 = 16"
    "data full16 20 = \<lparr>inUse = False, offset = 0x2000, agingCounter = 0\<rparr>"
    by (simp_all add: full16_def fresh_proc_def)
  ultimately show ?thesis
    by (simp add: swap_in_def missingPageIndex_def PGROUNDDOWN_def kalloc_def initAging_def)
qed


section \<open>Unmap of a range that is not mapped\<close>

lemma walk_leaf_present:
  "walk p a False =
     (if MAXVA \<le> unat a then Inl (PANIC ''walk'')
      else Inr (if leaf_present p (unat a div PGSIZE) then Some (unat a div PGSIZE) else None, p))"
proof -
  have "unat a div 2 ^ 30 = unat a div PGSIZE div 2 ^ 18" "unat a div 2 ^ 21 = unat a div PGSIZE div 2 ^ 9"
    by (simp_all add: div_mult2_eq [symmetric])
  then show ?thesis
    by (simp add: walk_no_alloc leaf_present_def)
qed

lemma unat_page: "n * PGSIZE < 2 ^ 64 \<Longrightarrow> unat (word_of_nat (n * PGSIZE) :: 64 word) = n * PGSIZE"
  using unat_of_nat [of "n * PGSIZE", where 'a = 64] by simp

lemma uvmunmap_loop_unmapped:
  assumes "hi * PGSIZE \<le> MAXVA" "lo \<le> hi"
    and "\<forall>n. lo \<le> n \<and> n < hi \<and> leaf_present p n \<longrightarrow> pt_pte p n = 0"
  shows "uvmunmap_loop sel (word_of_nat (lo * PGSIZE)) (word_of_nat (hi * PGSIZE)) do_free p =
     Inr (reset_offsets sel lo hi p)"
  using assms
proof (induction "hi - lo" arbitrary: lo p)
  case 0
  then have "lo = hi" by simp
  moreover have "(\<lambda>i. if sel \<noteq> NONE \<and> i < 32 \<and> hi \<le> i \<and> i < hi \<and> leaf_present p i
                     then (data p i)\<lparr>offset := - 1\<rparr> else data p i) = data p"
    by (auto simp: fun_eq_iff)
  then have "reset_offsets sel hi hi p = p"
    by (simp add: reset_offsets_def)
  ultimately show ?case
    by (subst uvmunmap_loop.simps) simp
next
  case (Suc d)
  then have lt: "lo < hi" by simp
  have b: "hi * PGSIZE < 2 ^ 64" "lo * PGSIZE < 2 ^ 64" "Suc lo * PGSIZE < 2 ^ 64"
    using Suc.prems(1) lt by simp_all
  have ua: "unat (word_of_nat (lo * PGSIZE) :: 64 word) = lo * PGSIZE"
    and ub: "unat (word_of_nat (hi * PGSIZE) :: 64 word) = hi * PGSIZE"
    using b by (simp_all only: unat_page)
  have less: "(word_of_nat (lo * PGSIZE) :: 64 word) < word_of_nat (hi * PGSIZE)"
    unfolding word_less_nat_alt ua ub using lt by simp
  have nxt: "(word_of_nat (lo * PGSIZE) :: 64 word) + 4096 = word_of_nat (Suc lo * PGSIZE)"
    by simp
  have mv: "\<not> MAXVA \<le> lo * PGSIZE"
    using Suc.prems(1) lt by simp
  define p2 where "p2 = (if leaf_present p lo \<and> sel \<noteq> NONE \<and> lo < 32
      then p\<lparr>data := (data p)(lo := (data p lo)\<lparr>offset := - 1\<rparr>)\<rparr> else p)"
  have step: "uvmunmap_loop sel (word_of_nat (lo * PGSIZE)) (word_of_nat (hi * PGSIZE)) do_free p =
      uvmunmap_loop sel (word_of_nat (Suc lo * PGSIZE)) (word_of_nat (hi * PGSIZE)) do_free p2"
  proof (cases "leaf_present p lo")
    case False
    then show ?thesis
      using less mv
      by (subst uvmunmap_loop.simps) (simp add: walk_leaf_present ua p2_def nxt del: of_nat_mult of_nat_Suc)
  next
    case True
    then have z: "pt_pte p lo = 0" using Suc.prems(3) lt by simp
    have "(pt_pte p)(lo := 0) = pt_pte p"
      using z by (auto simp: fun_eq_iff)
    then have "uvmunmap_pte sel (word_of_nat (lo * PGSIZE)) lo do_free p = Inr p2"
      using True z unfolding uvmunmap_pte_def ua
      by (auto simp: p2_def)
    then show ?thesis
      using less mv True
      by (subst uvmunmap_loop.simps) (simp add: walk_leaf_present ua nxt del: of_nat_mult of_nat_Suc)
  qed
  have lp: "leaf_present p2 = leaf_present p" and pt: "pt_pte p2 = pt_pte p"
    by (auto simp: p2_def leaf_present_def fun_eq_iff)
  have "uvmunmap_loop sel (word_of_nat (Suc lo * PGSIZE)) (word_of_nat (hi * PGSIZE)) do_free p2 =
      Inr (reset_offsets sel (Suc lo) hi p2)"
    using Suc.hyps(2) Suc.prems lt by (intro Suc.hyps(1)) (auto simp: lp pt)
  moreover have "reset_offsets sel (Suc lo) hi p2 = reset_offsets sel lo hi p"
    using lt unfolding reset_offsets_def lp
    by (auto simp: p2_def fun_eq_iff not_less_eq_eq intro!: proc.equality)
  ultimately show ?case using step by simp
qed


lemma aligned_page:
  fixes va :: "64 word"
  assumes "va mod 4096 = 0"
  shows "va = word_of_nat (unat va div PGSIZE * PGSIZE)"
proof -
  have "unat (va mod 4096) = unat va mod PGSIZE"
    using unat_mod [of va 4096] by simp
  then have "unat va mod PGSIZE = 0"
    using assms by simp
  then have "unat va div PGSIZE * PGSIZE = unat va"
    by (simp add: mod_0_imp_dvd)
  moreover have "word_of_nat (unat va) = va"
    by simp
  ultimately show ?thesis by (simp only:)
qed

text \<open>
  C9, amended. Let \<open>va\<close> be page aligned, let the range of \<open>npages\<close> pages from \<open>va\<close> end at
  or below \<open>MAXVA\<close>, and let every PTE of the range be absent or zero. Then \<open>uvmunmap\<close>
  does not panic, skips the absent PTEs, and changes nothing but offsets: the page table,
  the \<open>inUse\<close> flags, the counters, \<open>pagesInMemory\<close> and the queue are as before, and
  the offset of each page of the range below 32 whose PTE is present is \<open>-1\<close>. When
  these offsets were \<open>-1\<close> already, as a first unmap leaves them, the state is the same.
\<close>

theorem uvmunmap_unmapped_range:
  assumes "va mod 4096 = 0" "unat va + unat npages * PGSIZE \<le> MAXVA"
    and "\<forall>n. unat va div PGSIZE \<le> n \<and> n < unat va div PGSIZE + unat npages \<and> leaf_present p n
           \<longrightarrow> pt_pte p n = 0"
  shows "uvmunmap sel va npages do_free p =
           Inr (p\<lparr>data := (\<lambda>i. if sel \<noteq> NONE \<and> i < 32 \<and> unat va div PGSIZE \<le> i \<and>
                                   i < unat va div PGSIZE + unat npages \<and> leaf_present p i
                                then (data p i)\<lparr>offset := - 1\<rparr> else data p i)\<rparr>) \<and>
         ((\<forall>i. i < 32 \<and> unat va div PGSIZE \<le> i \<and> i < unat va div PGSIZE + unat npages \<and>
               leaf_present p i \<longrightarrow> offset (data p i) = - 1)
          \<longrightarrow> uvmunmap sel va npages do_free p = Inr p)"
proof -
  define lo where "lo = unat va div PGSIZE"
  define hi where "hi = lo + unat npages"
  have va: "va = word_of_nat (lo * PGSIZE)"
    using aligned_page [OF assms(1)] by (simp only: lo_def)
  have uva: "unat va = lo * PGSIZE"
    using assms(2) unat_page [of lo] by (subst va) (simp add: lo_def)
  have bound: "va + npages * 4096 = word_of_nat (hi * PGSIZE)"
    by (subst va) (simp add: hi_def algebra_simps)
  have "hi * PGSIZE \<le> MAXVA"
    using assms(2) uva by (simp add: hi_def algebra_simps)
  moreover have "lo \<le> hi" by (simp add: hi_def)
  moreover have "\<forall>n. lo \<le> n \<and> n < hi \<and> leaf_present p n \<longrightarrow> pt_pte p n = 0"
    using assms(3) by (simp add: lo_def hi_def)
  ultimately have "uvmunmap_loop sel (word_of_nat (lo * PGSIZE)) (word_of_nat (hi * PGSIZE)) do_free p =
      Inr (reset_offsets sel lo hi p)"
    by (rule uvmunmap_loop_unmapped)
  then have r: "uvmunmap sel va npages do_free p = Inr (reset_offsets sel lo hi p)"
    using assms(1) unfolding uvmunmap_def bound by (subst (2) va) simp
  have same: "reset_offsets sel lo hi p = p"
    if "\<forall>i. i < 32 \<and> lo \<le> i \<and> i < hi \<and> leaf_present p i \<longrightarrow> offset (data p i) = - 1"
  proof -
    have "(\<lambda>i. if sel \<noteq> NONE \<and> i < 32 \<and> lo \<le> i \<and> i < hi \<and> leaf_present p i
                     then (data p i)\<lparr>offset := - 1\<rparr> else data p i) = data p"
      using that by (auto simp: fun_eq_iff)
    then show ?thesis by (simp add: reset_offsets_def)
  qed
  show ?thesis
    using r same unfolding reset_offsets_def lo_def hi_def by auto
qed

lemma forked7_range:
  "\<forall>n. unat (0x7000 :: 64 word) div PGSIZE \<le> n \<and> n < unat (0x7000 :: 64 word) div PGSIZE + unat (1 :: 64 word) \<and>
     leaf_present forked7 n \<longrightarrow> pt_pte forked7 n = 0"
  by (auto simp: forked7_def swapped7_def fresh_proc_def)

theorem uvmunmap_unmapped_range_witness:
  "uvmunmap SCFIFO 0xA000 3 True second_chance2 = Inr second_chance2 \<and>
   map_sum id (\<lambda>p'. (offset (data p' 7), inUse (data p' 7), pt_pte p' = pt_pte forked7,
       pagesInMemory p')) (uvmunmap NFUA 0x7000 1 True forked7) = Inr (- 1, False, True, 2)"
proof -
  have h1: "\<forall>n. unat (0xA000 :: 64 word) div PGSIZE \<le> n \<and>
      n < unat (0xA000 :: 64 word) div PGSIZE + unat (3 :: 64 word) \<and>
      leaf_present second_chance2 n \<longrightarrow> pt_pte second_chance2 n = 0"
    by (auto simp: second_chance2_def fresh_proc_def)
  have h2: "\<forall>i. i < 32 \<and> unat (0xA000 :: 64 word) div PGSIZE \<le> i \<and>
      i < unat (0xA000 :: 64 word) div PGSIZE + unat (3 :: 64 word) \<and>
      leaf_present second_chance2 i \<longrightarrow> offset (data second_chance2 i) = - 1"
    by (auto simp: second_chance2_def fresh_proc_def)
  have "(0xA000 :: 64 word) mod 4096 = 0" "unat (0xA000 :: 64 word) + unat (3 :: 64 word) * PGSIZE \<le> MAXVA"
    by simp_all
  from uvmunmap_unmapped_range [OF this h1, of SCFIFO True] h2
  have a: "uvmunmap SCFIFO 0xA000 3 True second_chance2 = Inr second_chance2"
    by blast
  have b: "uvmunmap NFUA 0x7000 1 True forked7 =
      Inr (forked7\<lparr>data := (\<lambda>i. if NFUA \<noteq> NONE \<and> i < 32 \<and> unat (0x7000 :: 64 word) div PGSIZE \<le> i \<and>
                                   i < unat (0x7000 :: 64 word) div PGSIZE + unat (1 :: 64 word) \<and> leaf_present forked7 i
                                then (data forked7 i)\<lparr>offset := - 1\<rparr> else data forked7 i)\<rparr>)"
    using uvmunmap_unmapped_range [of "0x7000" 1 forked7 NFUA True] forked7_range by simp
  show ?thesis
    unfolding a b
    by (simp add: leaf_present_def forked7_def swapped7_def fresh_proc_def)
qed

text \<open>
  C9, the claim as stated. In \<open>forked7\<close> the PTE of page 7 is zero, and the call changes
  \<open>data[7].offset\<close> from 4096 to \<open>-1\<close>: the PageMeta table is not left unchanged.
\<close>

theorem uvmunmap_resets_offset_of_unmapped_page:
  "pt_pte forked7 7 = 0 \<and> offset (data forked7 7) = 0x1000 \<and>
   map_sum id (\<lambda>p'. offset (data p' 7)) (uvmunmap NFUA 0x7000 1 True forked7) = Inr (- 1)"
  by (simp add: uvmunmap_def uvmunmap_loop.simps walk_no_alloc uvmunmap_pte_def PTE_V_def
      forked7_def swapped7_def fresh_proc_def)

section \<open>The resident-page counts are kept\<close>

lemma resident_filter: "resident p = set (filter (\<lambda>i. inUse (data p i)) [0..<32])"
  by (auto simp: resident_def)

lemma count_inUse_card: "count_inUse p = int (card (resident p))"
proof -
  have "card (set (filter (\<lambda>i. inUse (data p i)) [0..<32])) =
      length (filter (\<lambda>i. inUse (data p i)) [0..<32])"
    by (rule distinct_card) simp
  then have "card (resident p) = length (filter (\<lambda>i. inUse (data p i)) [0..<32])"
    by (simp only: resident_filter)
  then show ?thesis
    by (simp add: count_inUse_def)
qed

lemma finite_resident [simp]: "finite (resident p)"
  by (simp add: resident_filter)

lemma resident_le: "card (resident p) \<le> 32"
proof -
  have "resident p \<subseteq> {..<32}" by (auto simp: resident_def)
  then have "card (resident p) \<le> card {..<32::nat}" by (intro card_mono) auto
  then show ?thesis by simp
qed

lemma resident_data_upd:
  "n < 32 \<Longrightarrow> resident (p\<lparr>data := (data p)(n := d)\<rparr>) =
     (if inUse d then insert n (resident p) else resident p - {n})"
  by (auto simp: resident_def)

lemma resident_cong: "(\<And>i. i < 32 \<Longrightarrow> inUse (data p' i) = inUse (data p i)) \<Longrightarrow> resident p' = resident p"
  by (auto simp: resident_def)

lemma tracked_queue_count:
  assumes "tracked SCFIFO p"
  shows "numOfPages p = pagesInMemory p"
proof -
  have d: "distinct (queue p)" and s: "set (queue p) = int ` resident p"
    using assms by (simp_all add: tracked_def)
  have "length (queue p) = card (set (queue p))"
    using d by (simp add: distinct_card)
  also have "\<dots> = card (int ` resident p)"
    by (simp only: s)
  also have "\<dots> = card (resident p)"
    by (simp add: card_image)
  finally have "int (nat (numOfPages p)) = count_inUse p"
    by (simp add: count_inUse_card)
  then show ?thesis
    using assms by (simp add: tracked_def wfq_def)
qed

text \<open>NFUA and LAPA\<close>

lemma nfua_fold_inUse:
  "snd (fold (nfua_step p) js st) = snd st \<or>
   (\<exists>j\<in>set js. snd (fold (nfua_step p) js st) = int j \<and> inUse (data p j))"
proof (induction js arbitrary: st)
  case Nil
  then show ?case by simp
next
  case (Cons j js)
  show ?case
    using Cons.IH [of "nfua_step p j st"]
    by (auto simp: nfua_step_def)
qed

lemma nfua_inUse:
  "nfua p = - 1 \<or> (\<exists>j. 3 \<le> j \<and> j < 32 \<and> nfua p = int j \<and> inUse (data p j))"
  using nfua_fold_inUse [of p "[3..<32]" "(2 ^ 31, - 1)"]
  by (auto simp: nfua_def)

lemma lapa_fold_inUse:
  "snd (snd (fold (lapa_step p) js st)) = snd (snd st) \<or>
   (\<exists>j\<in>set js. snd (snd (fold (lapa_step p) js st)) = int j \<and> inUse (data p j))"
proof (induction js arbitrary: st)
  case Nil
  then show ?case by simp
next
  case (Cons j js)
  show ?case
    using Cons.IH [of "lapa_step p j st"]
    by (cases st) (auto simp: lapa_step_def Let_def)
qed

lemma lapa_inUse:
  "lapa p = - 1 \<or> (\<exists>j. 3 \<le> j \<and> j < 32 \<and> lapa p = int j \<and> inUse (data p j))"
  using lapa_fold_inUse [of p "[3..<32]" "(- 1, - 1, - 1)"]
  by (auto simp: lapa_def)

lemma queue_frame_refl: "queue_frame p p"
  by (simp add: queue_frame_def)

lemma queue_frame_trans: "queue_frame p q \<Longrightarrow> queue_frame q r \<Longrightarrow> queue_frame p r"
  by (simp add: queue_frame_def)

lemma queue_frame_out: "queue_frame p (out p)"
  by (simp add: queue_frame_def out_def)

lemma queue_frame_in_q: "in_q x p = Inr p' \<Longrightarrow> queue_frame p p'"
  by (auto simp: queue_frame_def in_q_def Let_def split: if_splits)

text \<open>One rotation: the head goes to the tail.\<close>

lemma rotate_head:
  assumes "wfq p" "0 < numOfPages p"
  obtains p2 where "in_q (hd (queue p)) (out p) = Inr p2" "wfq p2"
    "queue p2 = tl (queue p) @ [hd (queue p)]" "numOfPages p2 = numOfPages p"
proof -
  have w1: "wfq (out p)" and q1: "queue (out p) = tl (queue p)"
    using out_queue [OF assms] by simp_all
  have n1: "numOfPages (out p) < MAX_TOTAL_PAGES"
    using assms(1) by (simp add: out_def wfq_def)
  obtain t pg where
    r2: "in_q (hd (queue p)) (out p) =
      Inr ((out p)\<lparr>tail := t, pages := pg, numOfPages := numOfPages (out p) + 1\<rparr>)"
    and w2: "wfq ((out p)\<lparr>tail := t, pages := pg, numOfPages := numOfPages (out p) + 1\<rparr>)"
    and q2: "queue ((out p)\<lparr>tail := t, pages := pg, numOfPages := numOfPages (out p) + 1\<rparr>) =
      queue (out p) @ [hd (queue p)]"
    using in_q_queue [OF w1 n1, of "hd (queue p)"] by blast
  show ?thesis
    using that [OF r2 w2] q2 q1 by (simp add: out_def)
qed

lemma queue_hd_tl:
  assumes "0 < numOfPages p"
  shows "queue p = hd (queue p) # tl (queue p)"
  using assms queue_Nil_iff [of p] by simp

lemma scfifo_loop_queue:
  assumes "scfifo_loop i p = Inr (v, p')" "wfq p" "0 < numOfPages p" "distinct (queue p)"
  shows "wfq p' \<and> distinct (queue p') \<and> v \<in> set (queue p) \<and>
         set (queue p') = set (queue p) - {v}"
  using assms
proof (induction i p rule: scfifo_loop.induct)
  case (1 i p)
  note q = queue_hd_tl [OF "1.prems"(3)]
  note hd = pages_at_head [OF "1.prems"(2,3)]
  have dq: "hd (queue p) \<notin> set (tl (queue p))" "distinct (tl (queue p))"
    using "1.prems"(4) q by (metis distinct.simps(2))+
  have out: "wfq (out p) \<and> distinct (queue (out p)) \<and> hd (queue p) \<in> set (queue p) \<and>
         set (queue (out p)) = set (queue p) - {hd (queue p)}"
    using out_queue [OF "1.prems"(2,3)] dq q
    by (metis Diff_insert_absorb list.set(2) list.set_intros(1))
  show ?case
  proof (cases "i < numOfPages p")
    case False
    with "1.prems"(1) hd have "v = hd (queue p)" "p' = out p"
      by (subst (asm) scfifo_loop.simps; simp)+
    with out show ?thesis by simp
  next
    case True
    from "1.prems"(1) True hd obtain va n s where
      va: "page_va (hd (queue p)) = Inr va" and w: "walk p va False = Inr (Some n, s)"
      by (subst (asm) scfifo_loop.simps)
        (auto split: sum.splits option.splits if_splits prod.splits)
    show ?thesis
    proof (cases "PTE_FLAGS (pt_pte p n) AND PTE_A \<noteq> 0")
      case False
      with "1.prems"(1) True hd va w have "v = hd (queue p)" "p' = out p"
        by (subst (asm) scfifo_loop.simps; simp)+
      with out show ?thesis by simp
    next
      case acc: True
      define p1 where "p1 = p\<lparr>pt_pte := (pt_pte p)(n := pt_pte p n AND NOT PTE_A)\<rparr>"
      have w1: "wfq p1" "0 < numOfPages p1" and q1: "queue p1 = queue p"
        using "1.prems"(2,3) wfq_cong [of p1 p] queue_cong [of p1 p] by (simp_all add: p1_def)
      obtain p2 where i2: "in_q (hd (queue p)) (out p1) = Inr p2" and w2: "wfq p2"
        and q2: "queue p2 = tl (queue p) @ [hd (queue p)]" and n2: "numOfPages p2 = numOfPages p"
        using rotate_head [OF w1] unfolding q1 by (auto simp: p1_def)
      from "1.prems"(1) True hd va w acc i2 have r: "scfifo_loop (i + 1) p2 = Inr (v, p')"
        by (subst (asm) scfifo_loop.simps) (simp add: p1_def)
      have "wfq p' \<and> distinct (queue p') \<and> v \<in> set (queue p2) \<and>
         set (queue p') = set (queue p2) - {v}"
        using "1.IH" [OF True hd va w _ _ acc i2 [unfolded p1_def] r w2] n2 "1.prems"(3) q2 dq
        by simp
      moreover have "set (queue p2) = set (queue p)"
        unfolding q2 using q by (metis Un_commute insert_is_Un list.set(2) set_append list.set(1) sup_bot.right_neutral Un_insert_right)
      ultimately show ?thesis by simp
    qed
  qed
qed

lemma removePage_loop_absent:
  assumes "wfq p" "x \<notin> set (queue p)" "0 \<le> i"
  shows "\<exists>p'. removePage_loop x i p = Inr p' \<and> wfq p' \<and> set (queue p') = set (queue p) \<and>
           (distinct (queue p) \<longrightarrow> distinct (queue p')) \<and> queue_frame p p'"
  using assms
proof (induction "nat (numOfPages p - i)" arbitrary: p i)
  case 0
  then have "\<not> i < numOfPages p" by simp
  then have "removePage_loop x i p = Inr p"
    by (subst removePage_loop.simps) simp
  with 0 show ?case by (simp add: queue_frame_refl)
next
  case (Suc d)
  then have lt: "i < numOfPages p" by simp
  then have pos: "0 < numOfPages p" using Suc.prems(3) by simp
  note q = queue_hd_tl [OF pos]
  have ne: "hd (queue p) \<noteq> x"
    using Suc.prems(2) q by (metis list.set_intros(1))
  obtain p2 where i2: "in_q (hd (queue p)) (out p) = Inr p2" and w2: "wfq p2"
    and q2: "queue p2 = tl (queue p) @ [hd (queue p)]" and n2: "numOfPages p2 = numOfPages p"
    using rotate_head [OF Suc.prems(1) pos] by blast
  have s2: "set (queue p2) = set (queue p)"
    unfolding q2 using q
    by (metis Un_commute insert_is_Un list.set(2) set_append list.set(1) sup_bot.right_neutral Un_insert_right)
  have d2: "distinct (queue p) \<longrightarrow> distinct (queue p2)"
    unfolding q2 using q by (metis distinct.simps(2) distinct1_rotate rotate1.simps(2))
  have step: "removePage_loop x i p = removePage_loop x (i + 1) p2"
    using lt ne i2 pages_at_head [OF Suc.prems(1) pos]
    by (subst removePage_loop.simps) simp
  have "\<exists>p'. removePage_loop x (i + 1) p2 = Inr p' \<and> wfq p' \<and> set (queue p') = set (queue p2) \<and>
           (distinct (queue p2) \<longrightarrow> distinct (queue p')) \<and> queue_frame p2 p'"
    using Suc.hyps(2) Suc.prems(2,3) n2 s2 by (intro Suc.hyps(1) w2) auto
  moreover have "queue_frame p p2"
    using queue_frame_out [of p] queue_frame_in_q [OF i2] by (rule queue_frame_trans)
  ultimately show ?case
    unfolding step using s2 d2 by (auto intro: queue_frame_trans)
qed

lemma removePage_loop_present:
  assumes "wfq p" "distinct (queue p)" "queue p = ys @ x # zs" "i \<le> int (length zs)" "0 \<le> i"
  shows "\<exists>p'. removePage_loop x i p = Inr p' \<and> wfq p' \<and> set (queue p') = set (queue p) - {x} \<and>
           distinct (queue p') \<and> queue_frame p p'"
  using assms
proof (induction ys arbitrary: p zs i)
  case Nil
  have pos: "0 < numOfPages p"
    using Nil.prems(3) queue_Nil_iff [of p] by auto
  have lt: "i < numOfPages p"
    using Nil.prems(1,3,4) length_queue [of p] by (simp add: wfq_def)
  have hd: "hd (queue p) = x" using Nil.prems(3) by simp
  have step: "removePage_loop x i p = removePage_loop x (i + 1) (out p)"
    using lt hd pages_at_head [OF Nil.prems(1) pos]
    by (subst removePage_loop.simps) simp
  have w1: "wfq (out p)" and q1: "queue (out p) = zs"
    using out_queue [OF Nil.prems(1) pos] Nil.prems(3) by simp_all
  have x: "x \<notin> set zs" "distinct zs"
    using Nil.prems(2,3) by auto
  then have "\<exists>p'. removePage_loop x (i + 1) (out p) = Inr p' \<and> wfq p' \<and>
      set (queue p') = set (queue (out p)) \<and>
      (distinct (queue (out p)) \<longrightarrow> distinct (queue p')) \<and> queue_frame (out p) p'"
    using w1 q1 Nil.prems(5) by (intro removePage_loop_absent) simp_all
  then show ?case
    unfolding step q1 using x Nil.prems(3) queue_frame_out [of p]
    by (auto intro: queue_frame_trans)
next
  case (Cons y ys)
  have pos: "0 < numOfPages p"
    using Cons.prems(3) queue_Nil_iff [of p] by auto
  have lt: "i < numOfPages p"
    using Cons.prems(1,3,4) length_queue [of p] by (simp add: wfq_def)
  have hd: "hd (queue p) = y" "tl (queue p) = ys @ x # zs" using Cons.prems(3) by simp_all
  have ne: "y \<noteq> x" using Cons.prems(2,3) by auto
  obtain p2 where i2: "in_q y (out p) = Inr p2" and w2: "wfq p2"
    and q2: "queue p2 = ys @ x # (zs @ [y])"
    using rotate_head [OF Cons.prems(1) pos] hd by auto
  have step: "removePage_loop x i p = removePage_loop x (i + 1) p2"
    using lt ne hd i2 pages_at_head [OF Cons.prems(1) pos]
    by (subst removePage_loop.simps) simp
  have d2: "distinct (queue p2)"
    unfolding q2 using Cons.prems(2,3) by auto
  have "\<exists>p'. removePage_loop x (i + 1) p2 = Inr p' \<and> wfq p' \<and>
      set (queue p') = set (queue p2) - {x} \<and> distinct (queue p') \<and> queue_frame p2 p'"
    using Cons.prems(4,5) by (intro Cons.IH [OF w2 d2 q2]) simp_all
  moreover have "set (queue p2) = set (queue p)"
    unfolding q2 Cons.prems(3) by auto
  moreover have "queue_frame p p2"
    using queue_frame_out [of p] queue_frame_in_q [OF i2] by (rule queue_frame_trans)
  ultimately show ?case
    unfolding step by (auto intro: queue_frame_trans)
qed

lemma removePage_queue:
  assumes "wfq p" "distinct (queue p)"
  shows "\<exists>p'. removePage x p = Inr p' \<and> wfq p' \<and> set (queue p') = set (queue p) - {x} \<and>
           distinct (queue p') \<and> queue_frame p p'"
proof (cases "x \<in> set (queue p)")
  case True
  then obtain ys zs where "queue p = ys @ x # zs"
    by (auto simp: in_set_conv_decomp)
  then show ?thesis
    unfolding removePage_def
    using removePage_loop_present [OF assms, of ys x zs 0] by simp
next
  case False
  then show ?thesis
    unfolding removePage_def
    using removePage_loop_absent [OF assms(1) False, of 0] assms(2) by auto
qed

lemma removePage_empty: "numOfPages p = 0 \<Longrightarrow> removePage x p = Inr p"
  unfolding removePage_def by (subst removePage_loop.simps) simp

lemma and_V_not_A: "(w AND NOT PTE_A) AND PTE_V = w AND PTE_V" for w :: pte_t
  by (rule bit_eqI) (auto simp: bit_and_iff bit_not_iff bit_PTE_A bit_PTE_V)

lemma victim_frame_mapped:
  assumes "victim_frame p p'"
  shows "mapped p' = mapped p"
proof
  fix n
  have "pt_pte p' n AND PTE_V = (pt_pte p' n AND NOT PTE_A) AND PTE_V"
    by (simp only: and_V_not_A)
  also have "\<dots> = (pt_pte p n AND NOT PTE_A) AND PTE_V"
    using assms by (simp add: victim_frame_def)
  also have "\<dots> = pt_pte p n AND PTE_V"
    by (simp only: and_V_not_A)
  finally show "mapped p' n = mapped p n"
    using assms by (simp add: mapped_def leaf_present_def victim_frame_def)
qed

lemma page_to_file_decomp:
  assumes "page_to_file sel pageOffset p = Inr p'"
  obtains v p1 where "getIndexToRemove sel p = Inr (v, p1)" "0 \<le> v"
    "leaf_present p1 (nat v)"
    "p' = p1\<lparr>freelist := PTE2PA (pt_pte p1 (nat v)) # freelist p1,
             pt_pte := (pt_pte p1)(nat v := (pt_pte p1 (nat v) AND NOT PTE_V) OR PTE_PG),
             data := (data p1)(nat v := (data p1 (nat v))\<lparr>inUse := False, offset := pageOffset\<rparr>),
             pagesInMemory := pagesInMemory p1 - 1\<rparr>"
proof -
  from assms obtain v p1 va n q where
    g: "getIndexToRemove sel p = Inr (v, p1)" and va: "page_va v = Inr va"
    and w: "walk p1 va False = Inr (Some n, q)"
    by (auto simp: page_to_file_def split: sum.splits prod.splits option.splits)
  note v = walk_page_va [OF va w]
  have lp: "leaf_present p1 n"
    using w by (auto simp: walk_leaf_present split: if_splits)
  from assms g va w have
    p': "p' = p1\<lparr>freelist := PTE2PA (pt_pte p1 n) # freelist p1,
             pt_pte := (pt_pte p1)(n := (pt_pte p1 n AND NOT PTE_V) OR PTE_PG),
             data := (data p1)(nat v := (data p1 (nat v))\<lparr>inUse := False, offset := pageOffset\<rparr>),
             pagesInMemory := pagesInMemory p1 - 1\<rparr>"
    by (auto simp: page_to_file_def kfree_def Let_def split: if_splits)
  show ?thesis
    using that [OF g v(1)] lp p' unfolding v(2) by simp
qed

lemma getIndexToRemove_inUse:
  assumes "getIndexToRemove sel p = Inr (v, p1)" "0 \<le> v" "sel \<noteq> NONE" "tracked sel p"
    "0 < pagesInMemory p"
  shows "nat v \<in> resident p"
    and "if sel = SCFIFO
         then wfq p1 \<and> distinct (queue p1) \<and> set (queue p1) = set (queue p) - {v}
         else p1 = p"
proof -
  have "nat v \<in> resident p \<and>
    (if sel = SCFIFO
         then wfq p1 \<and> distinct (queue p1) \<and> set (queue p1) = set (queue p) - {v}
         else p1 = p)"
  proof (cases sel)
    case NONE
    with assms(3) show ?thesis by simp
  next
    case NFUA
    with assms(1,2) nfua_inUse [of p] show ?thesis
      by (auto simp: getIndexToRemove_def resident_def)
  next
    case LAPA
    with assms(1,2) lapa_inUse [of p] show ?thesis
      by (auto simp: getIndexToRemove_def resident_def)
  next
    case SCFIFO
    have t: "wfq p" "distinct (queue p)" "set (queue p) = int ` resident p"
      using assms(4) SCFIFO by (simp_all add: tracked_def)
    have n: "0 < numOfPages p"
      using tracked_queue_count [of p] assms(4,5) SCFIFO by simp
    have r: "scfifo_loop 0 p = Inr (v, p1)"
      using assms(1) SCFIFO by (simp add: getIndexToRemove_def scfifo_def)
    note s = scfifo_loop_queue [OF r t(1) n t(2)]
    then have "v \<in> int ` resident p" using t(3) by simp
    then have "nat v \<in> resident p" by auto
    with s SCFIFO show ?thesis by simp
  qed
  then show "nat v \<in> resident p"
    and "if sel = SCFIFO
         then wfq p1 \<and> distinct (queue p1) \<and> set (queue p1) = set (queue p) - {v}
         else p1 = p"
    by simp_all
qed

lemma paged_out_not_mapped: "((w AND NOT PTE_V) OR PTE_PG) AND PTE_V = 0" for w :: pte_t
  by (rule paged_out_V)

lemma page_to_file_tracked:
  assumes "tracked sel p" "0 < pagesInMemory p" "sel \<noteq> NONE"
    and "page_to_file sel pageOffset p = Inr p'"
  shows "tracked sel p'" "pagesInMemory p' = pagesInMemory p - 1" "pid p' = pid p"
proof -
  from page_to_file_decomp [OF assms(4)] obtain v p1 where
    g: "getIndexToRemove sel p = Inr (v, p1)" and v: "0 \<le> v"
    and lp: "leaf_present p1 (nat v)"
    and p': "p' = p1\<lparr>freelist := PTE2PA (pt_pte p1 (nat v)) # freelist p1,
             pt_pte := (pt_pte p1)(nat v := (pt_pte p1 (nat v) AND NOT PTE_V) OR PTE_PG),
             data := (data p1)(nat v := (data p1 (nat v))\<lparr>inUse := False, offset := pageOffset\<rparr>),
             pagesInMemory := pagesInMemory p1 - 1\<rparr>"
    by blast
  note f = getIndexToRemove_frame(1) [OF g]
  note u = getIndexToRemove_inUse [OF g v assms(3,1,2)]
  have nv: "nat v < 32" using u(1) by (simp add: resident_def)
  have d1: "data p1 = data p" and m1: "pagesInMemory p1 = pagesInMemory p" and pid1: "pid p1 = pid p"
    using f by (simp_all add: victim_frame_def)
  have res: "resident p' = resident p - {nat v}"
    using nv by (auto simp: resident_def p' d1)
  have c: "count_inUse p' = count_inUse p - 1"
    unfolding count_inUse_card res using u(1) by (simp add: card_Diff_singleton_if card_gt_0_iff)
      (metis One_nat_def Suc_leI card_gt_0_iff empty_iff finite_resident of_nat_1 of_nat_diff)
  have mp: "mapped p' = (mapped p)(nat v := False)"
    using victim_frame_mapped [OF f]
    by (auto simp: fun_eq_iff mapped_def leaf_present_def p' paged_out_not_mapped)
  have i3: "\<forall>i<32. inUse (data p' i) = mapped p' i"
    using assms(1) unfolding mp by (simp add: tracked_def p' d1)
  have q: "if sel = SCFIFO
      then wfq p' \<and> distinct (queue p') \<and> set (queue p') = int ` resident p'
      else numOfPages p' = 0"
  proof (cases "sel = SCFIFO")
    case True
    have "wfq p'" "queue p' = queue p1"
      using u(2) True wfq_cong [of p' p1] queue_cong [of p' p1] by (simp_all add: p')
    moreover have "int ` (resident p - {nat v}) = int ` resident p - {v}"
      using v(1) by auto
    ultimately show ?thesis
      using u(2) True assms(1) unfolding res by (simp add: tracked_def)
  next
    case False
    then show ?thesis using u(2) assms(1) by (simp add: tracked_def p')
  qed
  show "tracked sel p'"
    using c i3 q assms(1) m1 unfolding tracked_def by (simp add: p')
  show "pagesInMemory p' = pagesInMemory p - 1" "pid p' = pid p"
    using m1 pid1 by (simp_all add: p')
qed

lemma card_resident_remove:
  assumes "n \<in> resident p"
  shows "int (card (resident p - {n})) = int (card (resident p)) - 1" "0 < card (resident p)"
proof -
  show "0 < card (resident p)"
    using assms by (auto simp: card_gt_0_iff)
  then show "int (card (resident p - {n})) = int (card (resident p)) - 1"
    using assms by (simp add: card_Diff_singleton_if)
qed

lemma uvmunmap_pte_tracked:
  assumes "tracked sel p" "sel \<noteq> NONE" "leaf_present p n" "n = unat a div PGSIZE"
    and "uvmunmap_pte sel a n True p = Inr p'"
  shows "tracked sel p'" "pid p' = pid p"
proof -
  have "tracked sel p' \<and> pid p' = pid p"
  proof (cases "pt_pte p n AND PTE_V \<noteq> 0 \<and> n < 32")
    case True
    then have mp: "mapped p n" using assms(3) by (simp add: mapped_def)
    then have iu: "n \<in> resident p"
      using assms(1) True by (simp add: tracked_def resident_def)
    note c = card_resident_remove [OF iu]
    have pim: "pagesInMemory p \<noteq> 0"
      using assms(1) c(2) by (simp add: tracked_def count_inUse_card)
    define p1 where "p1 = p\<lparr>freelist := PTE2PA (pt_pte p n) # freelist p,
        data := (data p)(n := (data p n)\<lparr>inUse := False, offset := - 1\<rparr>),
        pagesInMemory := pagesInMemory p - 1\<rparr>"
    from assms(2,4,5) True pim obtain p2 where
      r: "removePage (int n) p1 = Inr p2" and p': "p' = p2\<lparr>pt_pte := (pt_pte p2)(n := 0)\<rparr>"
      by (auto simp: uvmunmap_pte_def kfree_def Let_def p1_def split: if_splits sum.splits)
    have res1: "resident p1 = resident p - {n}"
      using True by (auto simp: resident_def p1_def)
    have qf: "queue_frame p1 p2 \<and>
      (if sel = SCFIFO
       then wfq p2 \<and> distinct (queue p2) \<and> set (queue p2) = int ` resident p1
       else numOfPages p2 = 0)"
    proof (cases "sel = SCFIFO")
      case True
      have "wfq p1" "distinct (queue p1)" "set (queue p1) = int ` resident p"
        using assms(1) True wfq_cong [of p1 p] queue_cong [of p1 p]
        by (simp_all add: tracked_def p1_def)
      moreover have "int ` (resident p - {n}) = int ` resident p - {int n}"
        by auto
      ultimately show ?thesis
        using removePage_queue [of p1 "int n"] r True unfolding res1 by auto
    next
      case False
      then have "numOfPages p1 = 0" using assms(1) by (simp add: tracked_def p1_def)
      then show ?thesis
        using removePage_empty [of p1 "int n"] r False by (simp add: queue_frame_refl)
    qed
    then have f: "queue_frame p1 p2" by simp
    have d: "data p' = data p1" and m: "pagesInMemory p' = pagesInMemory p - 1"
      and pd: "pid p' = pid p"
      using f by (simp_all add: p' queue_frame_def p1_def)
    have res: "resident p' = resident p - {n}"
      using res1 d by (simp add: resident_def)
    have mp': "mapped p' = (mapped p)(n := False)"
      using f by (auto simp: fun_eq_iff mapped_def leaf_present_def p' queue_frame_def p1_def)
    have "wfq p' = wfq p2" "queue p' = queue p2" "numOfPages p' = numOfPages p2"
      using wfq_cong [of p' p2] queue_cong [of p' p2] by (simp_all add: p')
    then have q: "if sel = SCFIFO
       then wfq p' \<and> distinct (queue p') \<and> set (queue p') = int ` resident p'
       else numOfPages p' = 0"
      using qf res res1 by simp
    have "count_inUse p' = pagesInMemory p'"
      using assms(1) c(1) unfolding count_inUse_card res m by (simp add: tracked_def count_inUse_card)
    moreover have "\<forall>i<32. inUse (data p' i) = mapped p' i"
      using assms(1) unfolding mp' d by (simp add: tracked_def p1_def)
    ultimately show ?thesis
      using q assms(1) m pd unfolding tracked_def by simp
  next
    case False
    define d where "d = (if pt_pte p n AND PTE_V = 0 \<and> n < 32
        then (data p)(n := (data p n)\<lparr>offset := - 1\<rparr>) else data p)"
    define fl where "fl = (if pt_pte p n AND PTE_V \<noteq> 0
        then PTE2PA (pt_pte p n) # freelist p else freelist p)"
    from assms(2,4,5) False have
      p': "p' = p\<lparr>freelist := fl, data := d, pt_pte := (pt_pte p)(n := 0)\<rparr>"
      by (auto simp: uvmunmap_pte_def kfree_def Let_def d_def fl_def split: if_splits)
    have iu: "\<And>i. inUse (d i) = inUse (data p i)"
      by (simp add: d_def)
    have res: "resident p' = resident p"
      by (auto simp: resident_def p' iu)
    have "\<not> (mapped p n \<and> n < 32)"
      using False by (auto simp: mapped_def)
    then have mp': "\<forall>i<32. mapped p' i = mapped p i"
      by (auto simp: mapped_def leaf_present_def p')
    have "wfq p' = wfq p" "queue p' = queue p"
      using wfq_cong [of p' p] queue_cong [of p' p] by (simp_all add: p')
    then show ?thesis
      using assms(1) mp' unfolding tracked_def count_inUse_card res
      by (simp add: p' iu)
  qed
  then show "tracked sel p'" "pid p' = pid p" by simp_all
qed

lemma uvmunmap_pte_untracked:
  assumes "untracked p" "sel \<noteq> NONE" "uvmunmap_pte sel a n True p = Inr p'"
  shows "untracked p'" "pid p' = pid p"
proof -
  have e: "removePage x (q\<lparr>data := d, pagesInMemory := 0\<rparr>) = Inr (q\<lparr>data := d, pagesInMemory := 0\<rparr>)"
    if "numOfPages q = 0" for x q d
    using that by (intro removePage_empty) simp
  have n0: "numOfPages p = 0" "pagesInMemory p = 0"
    using assms(1) by (simp_all add: untracked_def)
  from assms(3) have "untracked p' \<and> pid p' = pid p"
    using assms(1,2) n0
    by (auto simp: uvmunmap_pte_def kfree_def Let_def e untracked_def split: if_splits sum.splits)
  then show "untracked p'" "pid p' = pid p" by simp_all
qed

lemma uvmunmap_pte_inv:
  assumes "paging_inv sel p" "sel \<noteq> NONE" "leaf_present p n" "n = unat a div PGSIZE"
    and "uvmunmap_pte sel a n True p = Inr p'"
  shows "paging_inv sel p' \<and> pid p' = pid p"
  using assms uvmunmap_pte_tracked [of sel p n a p'] uvmunmap_pte_untracked [of p sel a n p']
  by (auto simp: paging_inv_def split: if_splits)

lemma uvmunmap_loop_inv:
  assumes "uvmunmap_loop sel a bound do_free p = Inr p'" "paging_inv sel p" "sel \<noteq> NONE" "do_free"
  shows "paging_inv sel p' \<and> pid p' = pid p"
  using assms
proof (induction sel a bound do_free p rule: uvmunmap_loop.induct)
  case (1 sel a bound do_free p)
  show ?case
  proof (cases "a < bound")
    case False
    with "1.prems"(1) have "p' = p"
      by (subst (asm) uvmunmap_loop.simps) simp
    with "1.prems"(2) show ?thesis by simp
  next
    case True
    from "1.prems"(1) True obtain r s where w: "walk p a False = Inr (r, s)"
      by (subst (asm) uvmunmap_loop.simps) (auto split: sum.splits)
    show ?thesis
    proof (cases r)
      case None
      with "1.prems"(1) True w have "uvmunmap_loop sel (a + 4096) bound do_free p = Inr p'"
        by (subst (asm) uvmunmap_loop.simps) simp
      then show ?thesis
        using "1.IH"(1) [OF True w [unfolded None] refl refl] "1.prems"(2,3,4) by simp
    next
      case (Some n)
      from "1.prems"(1) True w Some obtain p1 where
        u: "uvmunmap_pte sel a n do_free p = Inr p1"
        and r: "uvmunmap_loop sel (a + 4096) bound do_free p1 = Inr p'"
        by (subst (asm) uvmunmap_loop.simps) (auto split: sum.splits)
      have "leaf_present p n" "n = unat a div PGSIZE"
        using w Some by (auto simp: walk_leaf_present split: if_splits)
      then have "paging_inv sel p1 \<and> pid p1 = pid p"
        using uvmunmap_pte_inv [OF "1.prems"(2,3), of n a p1] u "1.prems"(4) by simp
      then show ?thesis
        using "1.IH"(2) [OF True w [unfolded Some] refl refl u r] "1.prems"(3,4) by simp
    qed
  qed
qed

lemma uvmunmap_inv:
  "uvmunmap sel va npages True p = Inr p' \<Longrightarrow> paging_inv sel p \<Longrightarrow> sel \<noteq> NONE \<Longrightarrow>
   paging_inv sel p' \<and> pid p' = pid p"
  using uvmunmap_loop_inv [of sel va "va + npages * 4096" True p p']
  by (auto simp: uvmunmap_def split: if_splits)

lemma uvmdealloc_inv:
  "uvmdealloc sel oldsz newsz p = Inr (r, p') \<Longrightarrow> paging_inv sel p \<Longrightarrow> sel \<noteq> NONE \<Longrightarrow>
   paging_inv sel p' \<and> pid p' = pid p"
  using uvmunmap_inv [of sel "PGROUNDUP newsz" _ p p']
  by (auto simp: uvmdealloc_def Let_def split: if_splits sum.splits)

lemma alloc_frame_refl: "alloc_frame p p"
  by (simp add: alloc_frame_def)

lemma alloc_frame_trans: "alloc_frame p q \<Longrightarrow> alloc_frame q r \<Longrightarrow> alloc_frame p r"
  by (simp add: alloc_frame_def)

lemma alloc_frame_freelist: "alloc_frame p (p\<lparr>freelist := fl\<rparr>)"
  by (simp add: alloc_frame_def mapped_def leaf_present_def fun_eq_iff)

lemma alloc_frame_kalloc: "kalloc p = (m, p') \<Longrightarrow> alloc_frame p p'"
  by (auto simp: kalloc_def alloc_frame_freelist alloc_frame_refl split: list.splits)

lemma alloc_frame_kfree: "alloc_frame p (kfree m p)"
  by (simp add: kfree_def alloc_frame_freelist)

lemma alloc_frame_inv:
  assumes "alloc_frame p p'"
  shows "paging_inv sel p' = paging_inv sel p"
proof -
  have "count_inUse p' = count_inUse p" "resident p' = resident p"
    using assms by (simp_all add: count_inUse_def resident_def alloc_frame_def)
  moreover have "wfq p' = wfq p" "queue p' = queue p"
    using assms wfq_cong [of p' p] queue_cong [of p' p] by (simp_all add: alloc_frame_def)
  ultimately show ?thesis
    using assms by (simp add: paging_inv_def tracked_def untracked_def alloc_frame_def)
qed

lemma div_div_512: "n div 2 ^ 9 div 512 = n div 2 ^ 18" for n :: nat
  by (simp add: div_mult2_eq [symmetric])

lemma walk_level2_frame:
  assumes "walk_level2 p i alloc = (b, p')"
  shows "alloc_frame p p'" "pt_pte p' = pt_pte p" "b \<Longrightarrow> pt_l1 p' i"
proof -
  have lp: "leaf_present (q\<lparr>pt_l1 := (pt_l1 q)(i := True),
      pt_l0 := (\<lambda>j. if j div 512 = i then False else pt_l0 q j)\<rparr>) = leaf_present q"
    if "\<not> pt_l1 q i" for q
    using that by (auto simp: leaf_present_def fun_eq_iff div_div_512)
  have "alloc_frame p p' \<and> pt_pte p' = pt_pte p \<and> (b \<longrightarrow> pt_l1 p' i)"
  proof (cases "pt_l1 p i \<or> \<not> alloc")
    case True
    with assms show ?thesis
      by (auto simp: walk_level2_def alloc_frame_refl split: if_splits)
  next
    case False
    obtain m q where k: "kalloc p = (m, q)" by (cases "kalloc p")
    have q: "alloc_frame p q" "pt_l1 q = pt_l1 p" "pt_pte q = pt_pte p"
      using k by (auto simp: alloc_frame_kalloc kalloc_def split: list.splits)
    show ?thesis
    proof (cases "m = 0")
      case True
      with assms False k q show ?thesis by (simp add: walk_level2_def)
    next
      case nz: False
      with assms False k have p': "p' = q\<lparr>pt_l1 := (pt_l1 q)(i := True),
          pt_l0 := (\<lambda>j. if j div 512 = i then False else pt_l0 q j)\<rparr>" and b: b
        by (simp_all add: walk_level2_def)
      have "\<not> pt_l1 q i" using False q(2) by simp
      then have "leaf_present p' = leaf_present q"
        unfolding p' by (rule lp)
      moreover have "pt_pte p' = pt_pte q" by (simp add: p')
      ultimately have "mapped p' = mapped q"
        by (simp add: mapped_def fun_eq_iff)
      then have "alloc_frame q p'"
        by (simp add: alloc_frame_def p')
      then have "alloc_frame p p'"
        by (rule alloc_frame_trans [OF q(1)])
      moreover have "pt_pte p' = pt_pte p" "pt_l1 p' i"
        using q(3) by (simp_all add: p')
      ultimately show ?thesis by simp
    qed
  qed
  then show "alloc_frame p p'" "pt_pte p' = pt_pte p" "b \<Longrightarrow> pt_l1 p' i" by simp_all
qed

lemma walk_level1_frame:
  assumes "walk_level1 p j alloc = (b, p')"
  shows "alloc_frame p p'" "b \<Longrightarrow> pt_l0 p' j" "pt_l1 p' = pt_l1 p"
proof -
  have "alloc_frame p p' \<and> (b \<longrightarrow> pt_l0 p' j) \<and> pt_l1 p' = pt_l1 p"
  proof (cases "pt_l0 p j \<or> \<not> alloc")
    case True
    with assms show ?thesis
      by (auto simp: walk_level1_def alloc_frame_refl split: if_splits)
  next
    case False
    obtain m q where k: "kalloc p = (m, q)" by (cases "kalloc p")
    have q: "alloc_frame p q" "pt_l0 q = pt_l0 p" "pt_l1 q = pt_l1 p"
      using k by (auto simp: alloc_frame_kalloc kalloc_def split: list.splits)
    show ?thesis
    proof (cases "m = 0")
      case True
      with assms False k q show ?thesis by (simp add: walk_level1_def)
    next
      case nz: False
      with assms False k have p': "p' = q\<lparr>pt_l0 := (pt_l0 q)(j := True),
          pt_pte := (\<lambda>n. if n div 512 = j then 0 else pt_pte q n)\<rparr>" and b: b
        by (simp_all add: walk_level1_def)
      have "mapped p' = mapped q"
        using False q(2) by (auto simp: mapped_def leaf_present_def fun_eq_iff p')
      then have "alloc_frame q p'"
        by (simp add: alloc_frame_def p')
      then have "alloc_frame p p'"
        by (rule alloc_frame_trans [OF q(1)])
      moreover have "pt_l0 p' j" "pt_l1 p' = pt_l1 p"
        using q(3) by (simp_all add: p')
      ultimately show ?thesis by simp
    qed
  qed
  then show "alloc_frame p p'" "b \<Longrightarrow> pt_l0 p' j" "pt_l1 p' = pt_l1 p" by simp_all
qed

lemma walk_frame:
  assumes "walk p a alloc = Inr (r, p')"
  shows "alloc_frame p p'" "r = Some n \<Longrightarrow> n = unat a div PGSIZE \<and> leaf_present p' n"
proof -
  define i where "i = unat a div 2 ^ 30"
  define j where "j = unat a div 2 ^ 21"
  obtain b2 p2 where l2: "walk_level2 p i alloc = (b2, p2)"
    by (cases "walk_level2 p i alloc")
  obtain b1 p1 where l1: "walk_level1 p2 j alloc = (b1, p1)"
    by (cases "walk_level1 p2 j alloc")
  note f2 = walk_level2_frame [OF l2]
  note f1 = walk_level1_frame [OF l1]
  have d: "i = unat a div PGSIZE div 2 ^ 18" "j = unat a div PGSIZE div 2 ^ 9"
    by (simp_all add: i_def j_def div_mult2_eq [symmetric])
  have nm: "\<not> MAXVA \<le> unat a"
    using assms by (auto simp: walk_def split: if_splits)
  have c: "(\<not> b2 \<and> r = None \<and> p' = p2) \<or> (b2 \<and> \<not> b1 \<and> r = None \<and> p' = p1) \<or>
      (b2 \<and> b1 \<and> r = Some (unat a div PGSIZE) \<and> p' = p1)"
    using assms nm unfolding walk_def i_def [symmetric] j_def [symmetric] l2
    by (cases b2; cases b1; simp add: l1)
  then show "alloc_frame p p'"
    using f2(1) f1(1) by (auto intro: alloc_frame_trans)
  show "n = unat a div PGSIZE \<and> leaf_present p' n" if "r = Some n"
    using c that f2(3) f1(2,3) unfolding leaf_present_def d by auto
qed

lemma aligned_bits: "a mod 4096 = 0 \<longleftrightarrow> a AND 4095 = 0" for a :: "64 word"
proof -
  have "a mod 2 ^ 12 = a AND mask 12"
    by (simp only: take_bit_eq_mod [symmetric] take_bit_eq_mask)
  then show ?thesis by (simp add: mask_eq_exp_minus_1)
qed

lemma aligned_PGROUNDDOWN:
  fixes a :: "64 word"
  assumes "a mod 4096 = 0"
  shows "PGROUNDDOWN a = a" "PGROUNDDOWN (a + 4096 - 1) = a"
proof -
  have z: "a AND 4095 = 0"
    using assms by (simp add: aligned_bits)
  have "a = (a AND NOT 4095) + (a AND 4095)"
    by (rule split_low_bits)
  with z show d: "PGROUNDDOWN a = a"
    by (simp add: PGROUNDDOWN_def)
  have "a + 4095 = a OR 4095"
    using z word_plus_and_or [of a 4095] by simp
  moreover have "(a OR 4095) AND NOT 4095 = a AND NOT 4095"
    by (auto simp add: bit_eq_iff bit_simps)
  ultimately have "(a + 4095) AND NOT 4095 = a AND NOT 4095"
    by simp
  moreover have "a + 4096 - 1 = a + 4095"
    by simp
  ultimately show "PGROUNDDOWN (a + 4096 - 1) = a"
    using d unfolding PGROUNDDOWN_def by metis
qed

lemma aligned_PGROUNDUP: "PGROUNDUP x mod 4096 = 0"
  unfolding aligned_bits PGROUNDUP_def by (simp add: bit_eq_iff bit_simps)

lemma aligned_unat: "a mod 4096 = 0 \<longleftrightarrow> unat a mod PGSIZE = 0" for a :: "64 word"
proof -
  have "unat (a mod 4096) = unat a mod PGSIZE"
    using unat_mod [of a 4096] by simp
  then show ?thesis
    using unat_eq_0 [of "a mod 4096"] by simp
qed

lemma aligned_next: "a mod 4096 = 0 \<Longrightarrow> (a + 4096) mod 4096 = 0" for a :: "64 word"
proof -
  assume "a mod 4096 = 0"
  then have "unat a mod PGSIZE = 0"
    by (simp add: aligned_unat)
  moreover have "unat (a + 4096) = (unat a + 4096) mod 2 ^ 64"
    by (simp add: unat_word_ariths)
  moreover have "(unat a + 4096) mod 2 ^ 64 mod PGSIZE = (unat a + 4096) mod PGSIZE"
    by (rule mod_mod_cancel) simp
  ultimately have "unat (a + 4096) mod PGSIZE = 0"
    by simp
  then show ?thesis
    by (simp add: aligned_unat)
qed

lemma or_V: "(w OR x OR PTE_V) AND PTE_V \<noteq> 0" for w :: pte_t
proof
  assume "(w OR x OR PTE_V) AND PTE_V = 0"
  moreover have "bit ((w OR x OR PTE_V) AND PTE_V) 0"
    by (simp add: bit_and_iff bit_or_iff bit_PTE_V)
  ultimately show False by simp
qed

lemma map_frame_upd:
  assumes "leaf_present q n" "\<not> mapped q n" "w AND PTE_V \<noteq> 0"
  shows "map_frame q (q\<lparr>pt_pte := (pt_pte q)(n := w)\<rparr>) n"
  using assms by (auto simp: map_frame_def mapped_def leaf_present_def)

lemma alloc_map_frame: "alloc_frame p q \<Longrightarrow> map_frame q r n \<Longrightarrow> map_frame p r n"
  by (simp add: alloc_frame_def map_frame_def)

lemma map_alloc_frame: "map_frame p q n \<Longrightarrow> alloc_frame q r \<Longrightarrow> map_frame p r n"
  by (simp add: alloc_frame_def map_frame_def)

lemma mappages_page:
  assumes "a mod 4096 = 0" "mappages a 4096 mem perm p = Inr (r, p')"
  shows "(r = - 1 \<and> alloc_frame p p') \<or> (r = 0 \<and> map_frame p p' (unat a div PGSIZE))"
proof -
  have m: "mappages_loop a a mem perm p = Inr (r, p')"
    using assms aligned_PGROUNDDOWN [OF assms(1)] by (simp add: mappages_def)
  obtain x p1 where w: "walk p a True = Inr (x, p1)"
    using m by (subst (asm) mappages_loop.simps) (auto split: sum.splits)
  note f = walk_frame [OF w]
  show ?thesis
  proof (cases x)
    case None
    with m w f show ?thesis
      by (subst (asm) mappages_loop.simps) simp
  next
    case (Some n)
    have n: "n = unat a div PGSIZE" "leaf_present p1 n"
      using f(2) [OF Some] by blast+
    from m w Some have v: "pt_pte p1 n AND PTE_V = 0"
      and p': "p' = p1\<lparr>pt_pte := (pt_pte p1)(n := PA2PTE mem OR perm OR PTE_V)\<rparr>" and r: "r = 0"
      by (subst (asm) mappages_loop.simps, simp split: if_splits)+
    have "\<not> mapped p1 n" using v by (simp add: mapped_def)
    then have "map_frame p1 p' n"
      unfolding p' using n(2) or_V by (intro map_frame_upd) simp_all
    then show ?thesis
      using f(1) r n(1) alloc_map_frame by blast
  qed
qed

lemma tracked_add:
  assumes "tracked sel q" "n < 32" "pagesInMemory q < MAX_PSYC_PAGES" "map_frame q p3 n"
    and "\<forall>i. inUse (data p' i) = (i = n \<or> inUse (data q i))"
    and "pagesInMemory p' = pagesInMemory q + 1"
    and "mapped p' = mapped p3"
    and "if sel = SCFIFO then wfq p' \<and> queue p' = queue q @ [int n]
         else numOfPages p' = numOfPages q"
  shows "tracked sel p'"
proof -
  have nq: "\<not> mapped q n" and mp: "\<And>i. mapped p' i = (i = n \<or> mapped q i)"
    using assms(4,7) by (simp_all add: map_frame_def)
  have iq: "\<And>i. i < 32 \<Longrightarrow> inUse (data q i) = mapped q i"
    using assms(1) by (simp add: tracked_def)
  have nr: "n \<notin> resident q"
    using nq iq [OF assms(2)] by (simp add: resident_def)
  have r: "resident p' = insert n (resident q)"
    using assms(2,5) by (auto simp: resident_def)
  have "card (resident p') = card (resident q) + 1"
    unfolding r using nr by simp
  then have c: "count_inUse p' = pagesInMemory p'"
    using assms(1,6) by (simp add: count_inUse_card tracked_def)
  have m: "\<forall>i<32. inUse (data p' i) = mapped p' i"
    using assms(5) mp iq by auto
  have "wfq p' \<and> distinct (queue p') \<and> set (queue p') = int ` resident p'" if "sel = SCFIFO"
  proof -
    have s: "set (queue q) = int ` resident q" "distinct (queue q)"
      using assms(1) that by (simp_all add: tracked_def)
    have "int n \<notin> set (queue q)"
      unfolding s using nr by auto
    then show ?thesis
      using assms(8) that s r by simp
  qed
  moreover have "numOfPages p' = 0" if "sel \<noteq> SCFIFO"
    using assms(1,8) that by (simp add: tracked_def)
  ultimately show ?thesis
    using c m assms(3,6) by (simp add: tracked_def)
qed

lemma initAging_queue:
  assumes "initAging sel x q = Inr (age, q')" "sel = SCFIFO \<longrightarrow> wfq q \<and> numOfPages q < MAX_TOTAL_PAGES"
  shows "if sel = SCFIFO then wfq q' \<and> queue q' = queue q @ [x] else numOfPages q' = numOfPages q"
    and "data q' = data q" "pagesInMemory q' = pagesInMemory q" "mapped q' = mapped q" "pid q' = pid q"
proof -
  show "if sel = SCFIFO then wfq q' \<and> queue q' = queue q @ [x] else numOfPages q' = numOfPages q"
  proof (cases "sel = SCFIFO")
    case True
    with assms(2) obtain t pg where
      i: "in_q x q = Inr (q\<lparr>tail := t, pages := pg, numOfPages := numOfPages q + 1\<rparr>)"
        "wfq (q\<lparr>tail := t, pages := pg, numOfPages := numOfPages q + 1\<rparr>)"
        "queue (q\<lparr>tail := t, pages := pg, numOfPages := numOfPages q + 1\<rparr>) = queue q @ [x]"
      using in_q_queue [of q x] by blast
    from assms(1) True i(1) have "q' = q\<lparr>tail := t, pages := pg, numOfPages := numOfPages q + 1\<rparr>"
      by (simp add: initAging_def)
    with i True show ?thesis by simp
  next
    case False
    with assms(1) have "q' = q"
      by (cases sel) (simp_all add: initAging_def)
    with False show ?thesis by simp
  qed
  have v: "victim_frame q q'" "pt_pte q' = pt_pte q"
    using initAging_frame [OF assms(1)] by simp_all
  then show "data q' = data q" "pagesInMemory q' = pagesInMemory q" "pid q' = pid q"
    by (simp_all add: victim_frame_def)
  show "mapped q' = mapped q"
    using v by (simp add: victim_frame_mapped)
qed

lemma tracked_room:
  assumes "tracked sel q" "pagesInMemory q < MAX_PSYC_PAGES"
  shows "sel = SCFIFO \<longrightarrow> wfq q \<and> numOfPages q < MAX_TOTAL_PAGES"
  using assms tracked_queue_count [of q] by (auto simp: tracked_def)

text \<open>The end of a round of growth and of \<open>swap_in\<close>: the page is recorded as resident.\<close>

lemma record_page:
  assumes "tracked sel q" "n < 32" "pagesInMemory q < MAX_PSYC_PAGES" "map_frame q p3 n"
    and "initAging sel (int n) (p3\<lparr>data := (data p3)(n := d), pagesInMemory := pagesInMemory p3 + 1\<rparr>)
          = Inr (age, p5)"
    and "inUse d" "inUse (data p5 n) \<longrightarrow> inUse d'"
  shows "tracked sel (p5\<lparr>data := (data p5)(n := d')\<rparr>)"
    and "pid (p5\<lparr>data := (data p5)(n := d')\<rparr>) = pid q"
    and "pagesInMemory (p5\<lparr>data := (data p5)(n := d')\<rparr>) = pagesInMemory q + 1"
proof -
  let ?p4 = "p3\<lparr>data := (data p3)(n := d), pagesInMemory := pagesInMemory p3 + 1\<rparr>"
  let ?p' = "p5\<lparr>data := (data p5)(n := d')\<rparr>"
  have f: "data p3 = data q" "pagesInMemory p3 = pagesInMemory q" "head p3 = head q"
    "tail p3 = tail q" "pages p3 = pages q" "numOfPages p3 = numOfPages q" "pid p3 = pid q"
    using assms(4) by (simp_all add: map_frame_def)
  have w4: "wfq ?p4 = wfq q" "queue ?p4 = queue q" "numOfPages ?p4 = numOfPages q"
    using f wfq_cong [of ?p4 q] queue_cong [of ?p4 q] by simp_all
  have room: "sel = SCFIFO \<longrightarrow> wfq ?p4 \<and> numOfPages ?p4 < MAX_TOTAL_PAGES"
    using tracked_room [OF assms(1,3)] w4 by simp
  note i = initAging_queue [OF assms(5) room]
  have "mapped ?p4 = mapped p3"
    by (simp add: mapped_def leaf_present_def fun_eq_iff)
  then have m: "mapped ?p' = mapped p3"
    using i(4) by (simp add: mapped_def leaf_present_def fun_eq_iff)
  have q': "if sel = SCFIFO then wfq ?p' \<and> queue ?p' = queue q @ [int n]
      else numOfPages ?p' = numOfPages q"
    using i(1) w4 wfq_cong [of ?p' p5] queue_cong [of ?p' p5] by simp
  have d: "\<forall>i. inUse (data ?p' i) = (i = n \<or> inUse (data q i))"
    using i(2) f(1) assms(6,7) by simp
  have pm: "pagesInMemory ?p' = pagesInMemory q + 1"
    using i(3) f(2) by simp
  show "tracked sel ?p'"
    by (rule tracked_add [OF assms(1,2,3,4) d pm m q'])
  show "pid ?p' = pid q"
    using i(5) f(7) by simp
  show "pagesInMemory ?p' = pagesInMemory q + 1"
    by (rule pm)
qed

lemma map_frame_untracked: "map_frame p p' n \<Longrightarrow> untracked p \<Longrightarrow> untracked p'"
  by (simp add: map_frame_def untracked_def)

lemma alloc_frame_pid: "alloc_frame p p' \<Longrightarrow> pid p' = pid p"
  by (simp add: alloc_frame_def)

lemma map_frame_pid: "map_frame p p' n \<Longrightarrow> pid p' = pid p"
  by (simp add: map_frame_def)

lemma alloc_and_map_inv:
  assumes "alloc_and_map sel a oldsz p = Inr (r, p')" "paging_inv sel p" "sel \<noteq> NONE"
    "a mod 4096 = 0"
  shows "case r of Some x \<Rightarrow> paging_inv sel p' \<and> pid p' = pid p
         | None \<Rightarrow> map_frame p p' (unat a div PGSIZE)"
proof -
  obtain mem p1 where k: "kalloc p = (mem, p1)" by (cases "kalloc p")
  have f1: "alloc_frame p p1" by (rule alloc_frame_kalloc [OF k])
  then have i1: "paging_inv sel p1" using assms(2) by (simp add: alloc_frame_inv)
  show ?thesis
  proof (cases "mem = 0")
    case True
    with assms(1) k obtain x where "uvmdealloc sel a oldsz p1 = Inr (x, p')" "r = Some 0"
      by (auto simp: alloc_and_map_def split: sum.splits)
    then show ?thesis
      using uvmdealloc_inv [OF _ i1 assms(3)] alloc_frame_pid [OF f1] by simp
  next
    case False
    with assms(1) k obtain r2 p2 where
      m: "mappages a 4096 mem (PTE_W OR PTE_X OR PTE_R OR PTE_U) p1 = Inr (r2, p2)"
      by (auto simp: alloc_and_map_def split: sum.splits)
    note mp = mappages_page [OF assms(4) m]
    show ?thesis
    proof (cases "r2 = 0")
      case True
      with assms(1) k False m have "r = None" "p' = p2"
        by (simp_all add: alloc_and_map_def)
      moreover have "map_frame p1 p2 (unat a div PGSIZE)"
        using mp True by simp
      ultimately show ?thesis
        using f1 alloc_map_frame by simp
    next
      case nz: False
      with assms(1) k False m obtain x where
        u: "uvmdealloc sel a oldsz (kfree mem p2) = Inr (x, p')" "r = Some 0"
        by (auto simp: alloc_and_map_def split: sum.splits)
      have "alloc_frame p1 p2" using mp nz by simp
      then have "alloc_frame p1 (kfree mem p2)"
        using alloc_frame_kfree alloc_frame_trans by blast
      then have f: "alloc_frame p (kfree mem p2)"
        using f1 alloc_frame_trans by blast
      then have "paging_inv sel (kfree mem p2)"
        using assms(2) by (simp add: alloc_frame_inv)
      then show ?thesis
        using uvmdealloc_inv [OF u(1) _ assms(3)] u(2) alloc_frame_pid [OF f] by simp
    qed
  qed
qed

lemma uvmalloc_body_inv:
  assumes "uvmalloc_body sel a oldsz newsz p = Inr (r, p')" "paging_inv sel p" "sel \<noteq> NONE"
    "a mod 4096 = 0" "unat a div PGSIZE < 32"
  shows "paging_inv sel p' \<and> pid p' = pid p"
proof (cases "1 < pid p")
  case False
  with assms(1) have am: "alloc_and_map sel a oldsz p = Inr (r, p')"
    by (simp add: uvmalloc_body_def)
  note i = alloc_and_map_inv [OF am assms(2,3,4)]
  show ?thesis
  proof (cases r)
    case None
    with i have mf: "map_frame p p' (unat a div PGSIZE)" by simp
    then have "pid p' = pid p" by (simp add: map_frame_def)
    with mf False assms(2) show ?thesis
      by (simp add: paging_inv_def map_frame_untracked)
  next
    case (Some x)
    with i show ?thesis by simp
  qed
next
  case pid: True
  then have t: "tracked sel p" using assms(2) by (simp add: paging_inv_def)
  define n where "n = unat a div PGSIZE"
  have n32: "n < 32"
    using assms(5) by (simp add: n_def)
  show ?thesis
  proof (cases "32 < n")
    case True
    with assms(1) pid have "p' = p"
      by (simp add: uvmalloc_body_def n_def)
    with assms(2) show ?thesis by simp
  next
    case le: False
    show ?thesis
    proof (cases "MAX_PSYC_PAGES \<le> pagesInMemory p")
      case True
      with assms(1) pid le obtain p1 where pf: "page_to_file sel (getOffset p) p = Inr p1"
        by (auto simp: uvmalloc_body_def n_def Let_def split: sum.splits)
      obtain mem p2 where k: "kalloc p1 = (mem, p2)" by (cases "kalloc p1")
      from assms(1) pid le True pf k obtain r3 p3 where
        m: "mappages a 4096 mem (PTE_W OR PTE_R OR PTE_X OR PTE_U) p2 = Inr (r3, p3)"
        by (auto simp: uvmalloc_body_def n_def Let_def split: sum.splits)
      have pos: "0 < pagesInMemory p" using True by simp
      note t1 = page_to_file_tracked [OF t pos assms(3) pf]
      have pm1: "pagesInMemory p1 < MAX_PSYC_PAGES"
        using t1(2) t by (simp add: tracked_def)
      have f2: "alloc_frame p1 p2" by (rule alloc_frame_kalloc [OF k])
      note mp = mappages_page [OF assms(4) m]
      show ?thesis
      proof (cases "r3 < 0")
        case neg: True
        with assms(1) pid le True pf k m obtain x where
          u: "uvmdealloc sel newsz oldsz p3 = Inr (x, p')"
          by (auto simp: uvmalloc_body_def n_def Let_def split: sum.splits)
        have "alloc_frame p2 p3" using mp neg by auto
        then have f3: "alloc_frame p1 p3" using f2 alloc_frame_trans by blast
        moreover have "paging_inv sel p1"
          using t1 pid by (simp add: paging_inv_def)
        ultimately have "paging_inv sel p3" by (simp add: alloc_frame_inv)
        then show ?thesis
          using uvmdealloc_inv [OF u _ assms(3)] alloc_frame_pid [OF f3] t1(3) by simp
      next
        case nn: False
        with assms(1) pid le True pf k m obtain age p5 where
          ia: "initAging sel (int n) (p3\<lparr>data := (data p3)(n :=
                     (data p3 n)\<lparr>inUse := True, offset := - 1\<rparr>),
                     pagesInMemory := pagesInMemory p3 + 1\<rparr>) = Inr (age, p5)"
          and p': "p' = p5\<lparr>data := (data p5)(n := (data p5 n)\<lparr>agingCounter := age\<rparr>)\<rparr>"
          by (auto simp: uvmalloc_body_def n_def Let_def split: sum.splits if_splits)
        have "map_frame p2 p3 n" using mp nn by (auto simp: n_def)
        then have mf: "map_frame p1 p3 n" using f2 alloc_map_frame by blast
        show ?thesis
          using record_page [OF t1(1) n32 pm1 mf ia,
              where d' = "(data p5 n)\<lparr>agingCounter := age\<rparr>"] t1(3) pid
          unfolding p' by (simp add: paging_inv_def)
      qed
    next
      case False
      with assms(1) pid le obtain r1 p1 where am: "alloc_and_map sel a oldsz p = Inr (r1, p1)"
        by (auto simp: uvmalloc_body_def n_def Let_def split: sum.splits)
      note i = alloc_and_map_inv [OF am assms(2,3,4)]
      show ?thesis
      proof (cases r1)
        case (Some x)
        with assms(1) pid le False am have "p' = p1"
          by (simp add: uvmalloc_body_def n_def)
        with i Some show ?thesis by simp
      next
        case None
        with assms(1) pid le False am obtain age p3 where
          ia: "initAging sel (int n) (p1\<lparr>data := (data p1)(n :=
                     (data p1 n)\<lparr>inUse := True\<rparr>),
                     pagesInMemory := pagesInMemory p1 + 1\<rparr>) = Inr (age, p3)"
          and p': "p' = p3\<lparr>data := (data p3)(n := (data p3 n)\<lparr>agingCounter := age\<rparr>)\<rparr>"
          by (auto simp: uvmalloc_body_def n_def Let_def split: sum.splits if_splits)
        have mf: "map_frame p p1 n" using i None by (simp add: n_def)
        have pm: "pagesInMemory p < MAX_PSYC_PAGES" using False by simp
        show ?thesis
          using record_page [OF t n32 pm mf ia,
              where d' = "(data p3 n)\<lparr>agingCounter := age\<rparr>"] pid
          unfolding p' by (simp add: paging_inv_def)
      qed
    qed
  qed
qed

lemma uvmalloc_loop_inv:
  assumes "uvmalloc_loop sel a oldsz newsz p = Inr (r, p')" "paging_inv sel p" "sel \<noteq> NONE"
    "a mod 4096 = 0" "unat newsz \<le> 32 * PGSIZE"
  shows "paging_inv sel p' \<and> pid p' = pid p"
  using assms
proof (induction sel a oldsz newsz p rule: uvmalloc_loop.induct)
  case (1 sel a oldsz newsz p)
  show ?case
  proof (cases "a < newsz")
    case False
    with "1.prems"(1) have "p' = p"
      by (subst (asm) uvmalloc_loop.simps) simp
    with "1.prems"(2) show ?thesis by simp
  next
    case True
    with "1.prems"(1) obtain x q where b: "uvmalloc_body sel a oldsz newsz p = Inr (x, q)"
      by (subst (asm) uvmalloc_loop.simps) (auto split: sum.splits)
    have "unat a < 32 * PGSIZE"
      using True "1.prems"(5) by (simp add: word_less_nat_alt)
    then have n: "unat a div PGSIZE < 32"
      by simp
    note q = uvmalloc_body_inv [OF b "1.prems"(2,3,4) n]
    show ?thesis
    proof (cases x)
      case (Some y)
      with "1.prems"(1) True b have "p' = q"
        by (subst (asm) uvmalloc_loop.simps) simp
      with q show ?thesis by simp
    next
      case None
      with "1.prems"(1) True b have l: "uvmalloc_loop sel (a + 4096) oldsz newsz q = Inr (r, p')"
        by (subst (asm) uvmalloc_loop.simps) simp
      have qi: "paging_inv sel q" using q by simp
      show ?thesis
        using "1.IH" [OF True b refl None l qi "1.prems"(3) aligned_next [OF "1.prems"(4)]
            "1.prems"(5)] q
        by simp
    qed
  qed
qed

lemma uvmalloc_inv:
  assumes "uvmalloc sel oldsz newsz p = Inr (r, p')" "paging_inv sel p" "sel \<noteq> NONE"
    "unat newsz \<le> 32 * PGSIZE"
  shows "paging_inv sel p' \<and> pid p' = pid p"
proof (cases "newsz < oldsz")
  case True
  with assms show ?thesis by (simp add: uvmalloc_def)
next
  case False
  with assms(1,3) have "uvmalloc_loop sel (PGROUNDUP oldsz) (PGROUNDUP oldsz) newsz p = Inr (r, p')"
    by (simp add: uvmalloc_def)
  then show ?thesis
    using assms(2,3) aligned_PGROUNDUP assms(4) by (rule uvmalloc_loop_inv)
qed

lemma bit0_V: "bit w 0 \<Longrightarrow> w AND PTE_V \<noteq> 0" for w :: pte_t
proof
  assume "bit w 0" "w AND PTE_V = 0"
  moreover from this(1) have "bit (w AND PTE_V) 0"
    by (simp add: bit_and_iff bit_PTE_V)
  ultimately show False by simp
qed

lemma page_to_file_mapped:
  assumes "page_to_file sel off p = Inr p'"
  shows "leaf_present p' = leaf_present p" "mapped p' i \<Longrightarrow> mapped p i"
proof -
  from assms obtain v p1 where g: "getIndexToRemove sel p = Inr (v, p1)"
    and p': "p' = p1\<lparr>freelist := PTE2PA (pt_pte p1 (nat v)) # freelist p1,
             pt_pte := (pt_pte p1)(nat v := (pt_pte p1 (nat v) AND NOT PTE_V) OR PTE_PG),
             data := (data p1)(nat v := (data p1 (nat v))\<lparr>inUse := False, offset := off\<rparr>),
             pagesInMemory := pagesInMemory p1 - 1\<rparr>"
    by (rule page_to_file_decomp)
  have v: "victim_frame p p1" by (rule getIndexToRemove_frame(1) [OF g])
  then have l: "leaf_present p1 = leaf_present p"
    by (simp add: victim_frame_def leaf_present_def fun_eq_iff)
  then show "leaf_present p' = leaf_present p"
    by (simp add: p' leaf_present_def fun_eq_iff)
  have "mapped p' i \<Longrightarrow> mapped p1 i"
    by (auto simp: p' mapped_def leaf_present_def paged_out_not_mapped split: if_splits)
  then show "mapped p' i \<Longrightarrow> mapped p i"
    using victim_frame_mapped [OF v] by simp
qed

lemma alloc_frame_tracked:
  assumes "alloc_frame p p'"
  shows "tracked sel p' = tracked sel p"
proof -
  have "count_inUse p' = count_inUse p" "resident p' = resident p"
    using assms by (simp_all add: count_inUse_def resident_def alloc_frame_def)
  moreover have "wfq p' = wfq p" "queue p' = queue p"
    using assms wfq_cong [of p' p] queue_cong [of p' p] by (simp_all add: alloc_frame_def)
  ultimately show ?thesis
    using assms by (simp add: tracked_def alloc_frame_def)
qed

lemma initAging_leaf:
  assumes "initAging sel x q = Inr (age, q')"
  shows "leaf_present q' = leaf_present q"
  using initAging_frame(1) [OF assms] by (simp add: victim_frame_def leaf_present_def fun_eq_iff)

lemma swap_in_inv:
  assumes "swap_in sel va pte p = Inr p'" "tracked sel p" "sel \<noteq> NONE"
    and "int pte = missingPageIndex va" "leaf_present p pte" "pt_pte p pte AND PTE_V = 0"
    and "pte < 32"
  shows "tracked sel p'" "pid p' = pid p"
proof -
  define n where "n = pte"
  have mi: "missingPageIndex va = int n" "nat (int n) = n"
    using assms(4) by (simp_all add: n_def)
  have n32: "n < 32"
    using assms(7) by (simp add: n_def)
  obtain buff p1 where k: "kalloc p = (buff, p1)" by (cases "kalloc p")
  have f1: "alloc_frame p p1" by (rule alloc_frame_kalloc [OF k])
  have l1: "leaf_present p1 = leaf_present p"
    using k by (auto simp: kalloc_def leaf_present_def fun_eq_iff split: list.splits)
  have nm: "\<not> mapped p n" using assms(6) by (simp add: mapped_def n_def)
  have t1: "tracked sel p1"
    using assms(2) by (simp add: alloc_frame_tracked [OF f1])
  have pid1: "pid p1 = pid p" by (rule alloc_frame_pid [OF f1])
  have nz: "buff \<noteq> 0"
    using assms(1) k unfolding swap_in_def Let_def mi by (auto split: if_splits)
  have "\<exists>q p3. tracked sel q \<and> pagesInMemory q < MAX_PSYC_PAGES \<and> pid q = pid p \<and>
      map_frame q p3 n \<and>
      (\<exists>age p4. initAging sel (int n) p3 = Inr (age, p4) \<and>
         p' = p4\<lparr>data := (data p4)(n := \<lparr>inUse = True, offset = - 1, agingCounter = age\<rparr>),
                 pagesInMemory := pagesInMemory p4 + 1\<rparr>)"
  proof (cases "pagesInMemory p1 < MAX_PSYC_PAGES")
    case True
    define p3 where "p3 = p1\<lparr>pt_pte := (pt_pte p1)(n := PA2PTE buff OR PTE_V)\<rparr>"
    have "bit (PA2PTE buff OR PTE_V) 0"
      by (simp add: bit_or_iff bit_PTE_V)
    then have "map_frame p1 p3 n"
      unfolding p3_def using assms(5) nm l1 f1
      by (intro map_frame_upd bit0_V) (simp_all add: n_def alloc_frame_def)
    moreover from assms(1) k nz True obtain age p4 where
      "initAging sel (int n) p3 = Inr (age, p4)"
      "p' = p4\<lparr>data := (data p4)(n := \<lparr>inUse = True, offset = - 1, agingCounter = age\<rparr>),
                 pagesInMemory := pagesInMemory p4 + 1\<rparr>"
      unfolding swap_in_def Let_def mi p3_def n_def [symmetric]
      by (auto split: if_splits sum.splits)
    ultimately show ?thesis
      using t1 True pid1 by blast
  next
    case False
    define off where "off = offset (data p n)"
    from assms(1) k nz False obtain p2 where pf: "page_to_file sel off p1 = Inr p2"
      unfolding swap_in_def Let_def mi off_def n_def [symmetric]
      by (auto split: if_splits sum.splits)
    define p3 where "p3 = p2\<lparr>pt_pte := (pt_pte p2)(n :=
        PA2PTE buff OR ((PTE_FLAGS (pt_pte p2 n) AND NOT PTE_PG) OR PTE_V))\<rparr>"
    have pos: "0 < pagesInMemory p1" using False by simp
    note t2 = page_to_file_tracked [OF t1 pos assms(3) pf]
    note m2 = page_to_file_mapped [OF pf]
    have "\<not> mapped p2 n"
      using m2(2) [of n] nm f1 by (auto simp: alloc_frame_def)
    moreover have "leaf_present p2 n"
      using m2(1) l1 assms(5) by (simp add: n_def)
    moreover have "bit (PA2PTE buff OR ((PTE_FLAGS (pt_pte p2 n) AND NOT PTE_PG) OR PTE_V)) 0"
      by (simp add: bit_or_iff bit_PTE_V)
    ultimately have "map_frame p2 p3 n"
      unfolding p3_def by (intro map_frame_upd bit0_V)
    moreover from assms(1) k nz False pf obtain age p4 where
      "initAging sel (int n) p3 = Inr (age, p4)"
      "p' = p4\<lparr>data := (data p4)(n := \<lparr>inUse = True, offset = - 1, agingCounter = age\<rparr>),
                 pagesInMemory := pagesInMemory p4 + 1\<rparr>"
      unfolding swap_in_def Let_def mi p3_def off_def n_def [symmetric]
      by (auto split: if_splits sum.splits)
    moreover have "pagesInMemory p2 < MAX_PSYC_PAGES"
      using t2(2) t1 by (simp add: tracked_def)
    ultimately show ?thesis
      using t2(1,3) pid1 by (metis (no_types, lifting))
  qed
  then obtain q p3 age p4 where q: "tracked sel q" "pagesInMemory q < MAX_PSYC_PAGES" "pid q = pid p"
    and mf: "map_frame q p3 n" and ia: "initAging sel (int n) p3 = Inr (age, p4)"
    and p': "p' = p4\<lparr>data := (data p4)(n := \<lparr>inUse = True, offset = - 1, agingCounter = age\<rparr>),
                 pagesInMemory := pagesInMemory p4 + 1\<rparr>"
    by blast
  have f: "data p3 = data q" "pagesInMemory p3 = pagesInMemory q" "head p3 = head q"
    "tail p3 = tail q" "pages p3 = pages q" "numOfPages p3 = numOfPages q" "pid p3 = pid q"
    using mf by (simp_all add: map_frame_def)
  have w3: "wfq p3 = wfq q" "queue p3 = queue q"
    using f wfq_cong [of p3 q] queue_cong [of p3 q] by simp_all
  have room: "sel = SCFIFO \<longrightarrow> wfq p3 \<and> numOfPages p3 < MAX_TOTAL_PAGES"
    using tracked_room [OF q(1,2)] w3 f(6) by simp
  note i = initAging_queue [OF ia room]
  have m: "mapped p' = mapped p3"
    using i(4) by (simp add: p' mapped_def leaf_present_def fun_eq_iff)
  have q': "if sel = SCFIFO then wfq p' \<and> queue p' = queue q @ [int n]
      else numOfPages p' = numOfPages q"
    using i(1) w3 f(6) wfq_cong [of p' p4] queue_cong [of p' p4] by (simp add: p')
  have d: "\<forall>i. inUse (data p' i) = (i = n \<or> inUse (data q i))"
    using i(2) f(1) by (simp add: p')
  have pm: "pagesInMemory p' = pagesInMemory q + 1"
    using i(3) f(2) by (simp add: p')
  show "tracked sel p'"
    by (rule tracked_add [OF q(1) n32 q(2) mf d pm m q'])
  show "pid p' = pid p"
    using i(5) f(7) q(3) by (simp add: p')
qed

lemma count_inUse_untracked: "untracked p \<Longrightarrow> count_inUse p = 0"
proof -
  assume "untracked p"
  then have "resident p = {}"
    by (auto simp: untracked_def resident_def)
  then show ?thesis
    by (simp add: count_inUse_card)
qed

lemma paging_inv_counts:
  assumes "paging_inv sel p"
  shows "counts_agree sel p"
proof (cases "1 < pid p")
  case True
  with assms have t: "tracked sel p" by (simp add: paging_inv_def)
  show ?thesis
  proof (cases "sel = SCFIFO")
    case True
    with t tracked_queue_count [of p] show ?thesis
      by (simp add: counts_agree_def tracked_def)
  next
    case False
    with t show ?thesis
      by (simp add: counts_agree_def tracked_def)
  qed
next
  case False
  with assms have "untracked p" by (simp add: paging_inv_def)
  then show ?thesis
    using count_inUse_untracked [of p] by (simp add: counts_agree_def untracked_def)
qed

lemma run_op_inv:
  assumes "run_op sel x p = Inr p'" "op_pre x p" "sel \<noteq> NONE" "paging_inv sel p"
  shows "paging_inv sel p' \<and> pid p' = pid p"
proof (cases x)
  case (Grow oldsz newsz)
  with assms(1) obtain r where "uvmalloc sel oldsz newsz p = Inr (r, p')"
    by (cases "uvmalloc sel oldsz newsz p") auto
  moreover from Grow assms(2) have "unat newsz \<le> 32 * PGSIZE" by simp
  ultimately show ?thesis using assms(4,3) by (intro uvmalloc_inv)
next
  case (Unmap va npages)
  with assms(1) have "uvmunmap sel va npages True p = Inr p'" by simp
  then show ?thesis using assms(4,3) by (rule uvmunmap_inv)
next
  case (Page_out pageOffset)
  with assms have t: "tracked sel p" and pre: "1 < pid p" "0 < pagesInMemory p"
    and r: "page_to_file sel pageOffset p = Inr p'"
    by (simp_all add: paging_inv_def)
  from page_to_file_tracked(1,3) [OF t pre(2) assms(3) r] pre(1)
  show ?thesis by (simp add: paging_inv_def)
next
  case (Swap_in va pte)
  with assms have t: "tracked sel p" and pre: "1 < pid p" "int pte = missingPageIndex va"
      "leaf_present p pte" "pt_pte p pte AND PTE_V = 0" "pte < 32"
    and r: "swap_in sel va pte p = Inr p'"
    by (simp_all add: paging_inv_def)
  from swap_in_inv [OF r t assms(3) pre(2,3,4,5)] pre(1)
  show ?thesis by (simp add: paging_inv_def)
qed

lemma run_ops_inv:
  assumes "run_ops sel xs p = Inr p'" "ops_pre sel xs p" "sel \<noteq> NONE" "paging_inv sel p"
  shows "paging_inv sel p' \<and> pid p' = pid p"
  using assms
proof (induction xs arbitrary: p)
  case Nil
  then show ?case by simp
next
  case (Cons x xs)
  from Cons.prems(1) obtain q where q: "run_op sel x p = Inr q" "run_ops sel xs q = Inr p'"
    by (auto split: sum.splits)
  with Cons.prems(2) have pre: "op_pre x p" "ops_pre sel xs q" by simp_all
  note i = run_op_inv [OF q(1) pre(1) Cons.prems(3,4)]
  then have "paging_inv sel q" by simp
  from Cons.IH [OF q(2) pre(2) Cons.prems(3) this] i show ?case by simp
qed

lemma second_chance2_inv: "paging_inv SCFIFO second_chance2"
proof -
  have "count_inUse second_chance2 = 2"
    by (simp add: count_inUse_def second_chance2_def fresh_proc_def upt_conv_Cons)
  moreover have "\<forall>i<32. inUse (data second_chance2 i) = mapped second_chance2 i"
    by (simp add: mapped_def leaf_present_def PTE_V_def second_chance2_def fresh_proc_def)
  moreover have "resident second_chance2 = {5, 6}"
    by (auto simp: resident_def second_chance2_def fresh_proc_def)
  moreover have "wfq second_chance2" "pid second_chance2 = 2" "pagesInMemory second_chance2 = 2"
    by (simp_all add: wfq_def second_chance2_def fresh_proc_def)
  ultimately show ?thesis
    by (simp add: paging_inv_def tracked_def second_chance2_queue)
qed

text \<open>
  Growth by the page with index 32, which the test of \<open>uvmalloc\<close> lets through: the call
  returns the new size, \<open>pagesInMemory\<close> counts the page, and the entry written is
  \<open>data[32]\<close>, not one of the 32 entries of the table.
\<close>

lemma growth_at_page_32:
  "map_sum id (\<lambda>(r, p'). (r, count_inUse p', pagesInMemory p', inUse (data p' 32)))
     (uvmalloc NFUA 0x20000 0x20001 boot_proc) = Inr (0x20001, 0, 1, True)"
  by (simp add: count_inUse_def
      uvmalloc_def uvmalloc_loop.simps uvmalloc_body_def alloc_and_map_def kalloc_def mappages_def
      mappages_loop.simps walk_def walk_level2_def walk_level1_def initAging_def PGROUNDUP_def PGROUNDDOWN_def
      PTE_V_def PTE_R_def PTE_W_def PTE_X_def PTE_U_def PTE_A_def PTE_PG_def PA2PTE_def
      boot_proc_def fresh_proc_def upt_conv_Cons Let_def)

text \<open>
  C1. Let a paging policy be selected (NFUA, LAPA or SCFIFO) and let the bookkeeping of
  the process be consistent (\<open>paging_inv\<close>). After every sequence of calls of \<open>uvmalloc\<close>,
  \<open>uvmunmap\<close> with \<open>do_free\<close>, \<open>page_to_file\<close> and \<open>swap_in\<close> that return, each on the page
  table of the process itself and called as the kernel calls it (\<open>ops_pre\<close>), with growth
  to at most \<open>MAX_TOTAL_PAGES\<close> pages and a faulting page below \<open>MAX_TOTAL_PAGES\<close>, the
  bookkeeping is consistent again, the process is the same, and the counts agree: the
  number of entries with \<open>inUse\<close> set equals \<open>pagesInMemory\<close>, which is at most
  \<open>MAX_PSYC_PAGES\<close>, and \<open>numOfPages\<close> of the queue equals \<open>pagesInMemory\<close> under SCFIFO and
  is 0 under NFUA and LAPA.
\<close>

theorem paging_counts_invariant:
  assumes "sel \<noteq> NONE" "paging_inv sel p" "ops_pre sel xs p" "run_ops sel xs p = Inr p'"
  shows "paging_inv sel p' \<and> pid p' = pid p \<and> counts_agree sel p'"
  using run_ops_inv [OF assms(4,3,1,2)] paging_inv_counts [of sel p'] by simp

theorem paging_counts_invariant_witness:
  "paging_inv SCFIFO second_chance2 \<and> ops_pre SCFIFO [Page_out 0x3000] second_chance2 \<and>
   map_sum id (\<lambda>p'. (paging_inv SCFIFO p', count_inUse p', pagesInMemory p', numOfPages p'))
     (run_ops SCFIFO [Page_out 0x3000] second_chance2) = Inr (True, 1, 1, 1)"
proof -
  obtain p' where r: "page_to_file SCFIFO 0x3000 second_chance2 = Inr p'"
    using second_chance2_page_out by blast
  have f: "pid second_chance2 = 2" "pagesInMemory second_chance2 = 2"
    by (simp_all add: second_chance2_def fresh_proc_def)
  have pre: "ops_pre SCFIFO [Page_out 0x3000] second_chance2"
    using f r by simp
  have run: "run_ops SCFIFO [Page_out 0x3000] second_chance2 = Inr p'"
    using r by simp
  have i: "paging_inv SCFIFO p'" "counts_agree SCFIFO p'"
    using paging_counts_invariant [of SCFIFO second_chance2 "[Page_out 0x3000]" p']
      second_chance2_inv pre run by simp_all
  have "tracked SCFIFO second_chance2"
    using second_chance2_inv f by (simp add: paging_inv_def)
  then have "pagesInMemory p' = 1"
    using page_to_file_tracked(2) [of SCFIFO second_chance2 "0x3000" p'] r f by simp
  with i show ?thesis
    unfolding run using pre by (simp add: second_chance2_inv counts_agree_def)
qed

text \<open>
  C1, the claim as stated. Under NFUA a process with nothing resident grows by one
  page: one entry is in use and \<open>pagesInMemory\<close> is 1, while the queue stays empty,
  since \<open>initAging\<close> calls \<open>in\<close> under SCFIFO only. \<open>numOfPages\<close> is not equal to the other
  two counts.
\<close>

theorem nfua_growth_leaves_queue_empty:
  "pid boot_proc = 2 \<and>
   (count_inUse boot_proc, pagesInMemory boot_proc, numOfPages boot_proc) = (0, 0, 0) \<and>
   map_sum id (\<lambda>(r, p'). (r, count_inUse p', pagesInMemory p', numOfPages p'))
     (uvmalloc NFUA 0 0x1000 boot_proc) = Inr (0x1000, 1, 1, 0)"
proof -
  have "pid boot_proc = 2"
    "(count_inUse boot_proc, pagesInMemory boot_proc, numOfPages boot_proc) = (0, 0, 0)"
    by (simp_all add: count_inUse_def boot_proc_def fresh_proc_def)
  moreover have "map_sum id (\<lambda>(r, p'). (r, count_inUse p', pagesInMemory p', numOfPages p'))
     (uvmalloc NFUA 0 0x1000 boot_proc) = Inr (0x1000, 1, 1, 0)"
    by (simp add: count_inUse_def
      uvmalloc_def uvmalloc_loop.simps uvmalloc_body_def alloc_and_map_def kalloc_def mappages_def
      mappages_loop.simps walk_def walk_level2_def walk_level1_def initAging_def PGROUNDUP_def PGROUNDDOWN_def
      PTE_V_def PTE_R_def PTE_W_def PTE_X_def PTE_U_def PTE_A_def PTE_PG_def PA2PTE_def
      boot_proc_def fresh_proc_def upt_conv_Cons Let_def)
  ultimately show ?thesis by simp
qed

end
